theory Spec2Isabelle
  imports Main "HOL-Library.Word" "HOL-Library.AList" "HOL-Library.List_Lexorder"
    "HOL-Library.Char_ord"
begin

unbundle bit_operations_syntax

text \<open>
  A model of the key algebra of \<open>hashstore.bakery\<close> (\<open>Cake\<close>, \<open>ContentAddress\<close>, shards,
  \<open>CakeRack\<close>, \<open>SaltedSha\<close>) and of \<open>resolve_cake_stack\<close> from \<open>hashstore.bakery.lite.dal\<close>,
  with the properties that the specification states about them. The definitions come first,
  function by function in the order of the source; the properties follow.
\<close>

section \<open>Bytes, errors and the external libraries\<close>

text \<open>
  Python \<open>bytes\<close> are lists of 8-bit words; a Python \<open>str\<close> is a \<open>string\<close>.
  Every exception the modelled code can raise is a value of \<open>error\<close>, and a function that can
  raise returns \<open>error + 'a\<close> with \<open>Inl\<close> for the exception.

  \<open>hashlib.sha256\<close>, \<open>os.urandom\<close>, \<open>json\<close> and \<open>base64\<close> are libraries outside the
  repository. They appear as parameters of the functions that call them (\<open>sha256\<close>, \<open>urandom\<close>,
  \<open>dumps\<close>/\<open>loads\<close>, \<open>b64decode\<close>); what a theorem needs of them is a hypothesis of that theorem.
\<close>

type_synonym byte = "8 word"
type_synonym bytes = "byte list"

datatype error =
    AssertionError
  | KeyError
  | IndexError
  | AttributeError
  | ValueError
  | TypeError
  | ZeroDivisionError
  | LibraryError

section \<open>CakeRole and CakeType\<close>

datatype CakeRole = SYNAPSE | NEURON

fun role_code :: "CakeRole \<Rightarrow> nat" where
  "role_code SYNAPSE = 0"
| "role_code NEURON = 1"

datatype modifier = IS_PORTAL | IS_VTREE | IS_RESOLVED

datatype CakeType =
  INLINE | SHA256 | PORTAL | VTREE | DMOUNT | EVENT | DAG_STATE | JSON_WRAP

text \<open>The enum table of \<open>CakeType\<close>: code, implied role, modifiers (the \<open>json_type\<close> column,
  a Python class reference, plays no part in the key algebra and is left out).\<close>

fun type_code :: "CakeType \<Rightarrow> nat" where
  "type_code INLINE = 0"
| "type_code SHA256 = 1"
| "type_code PORTAL = 2"
| "type_code VTREE = 3"
| "type_code DMOUNT = 4"
| "type_code EVENT = 5"
| "type_code DAG_STATE = 6"
| "type_code JSON_WRAP = 7"

fun implied_role :: "CakeType \<Rightarrow> CakeRole option" where
  "implied_role EVENT = Some SYNAPSE"
| "implied_role DAG_STATE = Some NEURON"
| "implied_role JSON_WRAP = Some SYNAPSE"
| "implied_role _ = None"

fun modifiers :: "CakeType \<Rightarrow> modifier list" where
  "modifiers INLINE = []"
| "modifiers SHA256 = [IS_RESOLVED]"
| "modifiers PORTAL = [IS_PORTAL]"
| "modifiers VTREE = [IS_VTREE]"
| "modifiers DMOUNT = [IS_PORTAL]"
| "modifiers EVENT = [IS_RESOLVED]"
| "modifiers DAG_STATE = [IS_VTREE]"
| "modifiers JSON_WRAP = [IS_RESOLVED]"

definition is_vtree :: "CakeType \<Rightarrow> bool" where
  "is_vtree t = (IS_VTREE \<in> set (modifiers t))"

definition is_portal :: "CakeType \<Rightarrow> bool" where
  "is_portal t = (is_vtree t \<or> IS_PORTAL \<in> set (modifiers t))"

definition is_resolved :: "CakeType \<Rightarrow> bool" where
  "is_resolved t = (IS_RESOLVED \<in> set (modifiers t))"

section \<open>Base-N codec\<close>

text \<open>
  Modelled from the spec: the module \<open>hashstore.utils.base_x\<close> (the class behind \<open>B62\<close> and
  \<open>B36\<close>) is not among the sources. The definitions of this section follow section 4.1 of the
  specification: a positional codec over an alphabet of \<open>N\<close> characters (digits and both
  cases of letters for \<open>N = 62\<close>, \<open>0-9a-z\<close> for \<open>N = 36\<close>); \<open>encode_int\<close>/\<open>decode_int\<close> are
  the pure positional encoding of a non-negative integer (of minimum length 1); \<open>encode\<close> emits
  one "zero" character of the alphabet per leading zero byte, followed by the positional
  encoding of the remaining bytes read as a big-endian integer, and \<open>decode\<close> is its inverse.
  A character outside the alphabet makes decoding raise. The 62 characters are taken in the
  order digits, lower case, upper case: that order reproduces the doctests of the source
  (\<open>str(Cake.from_bytes(b'The quick brown fox jumps over'))\<close>), the order \<open>0-9A-Za-z\<close> does
  not. No property below depends on the order.
\<close>

definition alphabet62 :: string where
  "alphabet62 = ''0123456789abcdefghijklmnopqrstuvwxyzABCDEFGHIJKLMNOPQRSTUVWXYZ''"

definition alphabet36 :: string where
  "alphabet36 = ''0123456789abcdefghijklmnopqrstuvwxyz''"

text \<open>Most significant digit first; no digit at all for 0. (A base below 2 is no positional
  system; the function returns no digits there.)\<close>

function to_digits :: "nat \<Rightarrow> nat \<Rightarrow> nat list" where
  "to_digits base n =
     (if n = 0 \<or> base < 2 then [] else to_digits base (n div base) @ [n mod base])"
  by pat_completeness auto
termination
  by (relation "measure snd") auto

declare to_digits.simps [simp del]

definition from_digits :: "nat \<Rightarrow> nat list \<Rightarrow> nat" where
  "from_digits base ds = foldl (\<lambda>acc d. acc * base + d) 0 ds"

fun index_of :: "'a \<Rightarrow> 'a list \<Rightarrow> nat option" where
  "index_of c [] = None"
| "index_of c (x # xs) = (if x = c then Some 0 else map_option Suc (index_of c xs))"

fun decode_digits :: "string \<Rightarrow> string \<Rightarrow> error + nat list" where
  "decode_digits alphabet [] = Inr []"
| "decode_digits alphabet (c # cs) =
     (case index_of c alphabet of
        None \<Rightarrow> Inl KeyError
      | Some d \<Rightarrow>
          (case decode_digits alphabet cs of Inl e \<Rightarrow> Inl e | Inr ds \<Rightarrow> Inr (d # ds)))"

definition encode_digits :: "string \<Rightarrow> nat list \<Rightarrow> string" where
  "encode_digits alphabet ds = map (\<lambda>d. alphabet ! d) ds"

definition encode_int :: "string \<Rightarrow> nat \<Rightarrow> string" where
  "encode_int alphabet n =
     (if n = 0 then [alphabet ! 0] else encode_digits alphabet (to_digits (length alphabet) n))"

definition decode_int :: "string \<Rightarrow> string \<Rightarrow> error + nat" where
  "decode_int alphabet s =
     (case decode_digits alphabet s of
        Inl e \<Rightarrow> Inl e
      | Inr ds \<Rightarrow> Inr (from_digits (length alphabet) ds))"

definition encode :: "string \<Rightarrow> bytes \<Rightarrow> string" where
  "encode alphabet v =
     replicate (length (takeWhile (\<lambda>b. b = 0) v)) (alphabet ! 0)
     @ encode_digits alphabet
         (to_digits (length alphabet) (from_digits 256 (map unat (dropWhile (\<lambda>b. b = 0) v))))"

definition decode :: "string \<Rightarrow> string \<Rightarrow> error + bytes" where
  "decode alphabet s =
     (case decode_int alphabet (dropWhile (\<lambda>c. c = alphabet ! 0) s) of
        Inl e \<Rightarrow> Inl e
      | Inr n \<Rightarrow>
          Inr (replicate (length (takeWhile (\<lambda>c. c = alphabet ! 0) s)) 0
               @ map of_nat (to_digits 256 n)))"

definition B62_encode :: "bytes \<Rightarrow> string" where
  "B62_encode = encode alphabet62"

definition B62_decode :: "string \<Rightarrow> error + bytes" where
  "B62_decode = decode alphabet62"

definition B36_encode :: "bytes \<Rightarrow> string" where
  "B36_encode = encode alphabet36"

definition B36_decode :: "string \<Rightarrow> error + bytes" where
  "B36_decode = decode alphabet36"

definition B36_encode_int :: "nat \<Rightarrow> string" where
  "B36_encode_int = encode_int alphabet36"

definition B36_decode_int :: "string \<Rightarrow> error + nat" where
  "B36_decode_int = decode_int alphabet36"

section \<open>Stream processing\<close>

definition inline_max_bytes :: nat where
  "inline_max_bytes = 32"

text \<open>
  The loop of \<open>process_stream\<close>. The stream \<open>fd\<close> is the list of bytes not yet read and
  \<open>fd.read(chunk_size)\<close> takes the next \<open>chunk_size\<close> of them. The loop state is
  \<open>(inline_data, hashed, length, obs)\<close>: \<open>hashed\<close> is everything passed to \<open>hasher.update\<close>
  so far, and \<open>obs\<close> is whatever the callback \<open>on_chunk\<close> accumulates.
\<close>

function process_chunks ::
  "('s \<Rightarrow> bytes \<Rightarrow> 's) \<Rightarrow> nat \<Rightarrow> bytes \<Rightarrow> bytes \<times> bytes \<times> nat \<times> 's
     \<Rightarrow> bytes \<times> bytes \<times> nat \<times> 's" where
  "process_chunks on_chunk chunk_size fd (inline_data, hashed, len, obs) =
     (if length (take chunk_size fd) \<le> 0 then (inline_data, hashed, len, obs)
      else process_chunks on_chunk chunk_size (drop chunk_size fd)
             (if len + length (take chunk_size fd) \<le> inline_max_bytes
                then inline_data @ take chunk_size fd else inline_data,
              hashed @ take chunk_size fd,
              len + length (take chunk_size fd),
              on_chunk obs (take chunk_size fd)))"
  by pat_completeness auto
termination
  by (relation "measure (\<lambda>(on_chunk, chunk_size, fd, st). length fd)") auto

declare process_chunks.simps [simp del]

definition process_stream ::
  "(bytes \<Rightarrow> bytes) \<Rightarrow> bytes \<Rightarrow> ('s \<Rightarrow> bytes \<Rightarrow> 's) \<Rightarrow> nat \<Rightarrow> 's
     \<Rightarrow> (bytes \<times> bytes option) \<times> 's" where
  "process_stream sha256 fd on_chunk chunk_size obs =
     (case process_chunks on_chunk chunk_size fd ([], [], 0, obs) of
        (inline_data, hashed, len, obs') \<Rightarrow>
          ((sha256 hashed, if len > inline_max_bytes then None else Some inline_data), obs'))"

definition nop_on_chunk :: "unit \<Rightarrow> bytes \<Rightarrow> unit" where
  "nop_on_chunk u chunk = ()"

definition default_chunk_size :: nat where
  "default_chunk_size = 65355"

section \<open>Cake\<close>

text \<open>The three fields of a Cake; \<open>u_data\<close> is the Python attribute \<open>_data\<close>
  (the method \<open>data()\<close> is \<open>cake_data\<close> below).\<close>

record Cake =
  u_data :: bytes
  type :: CakeType
  role :: CakeRole

definition has_data :: "Cake \<Rightarrow> bool" where
  "has_data c = (type c = INLINE)"

definition cake_data :: "Cake \<Rightarrow> bytes option" where
  "cake_data c = (if has_data c then Some (u_data c) else None)"

definition digest :: "(bytes \<Rightarrow> bytes) \<Rightarrow> Cake \<Rightarrow> bytes" where
  "digest sha256 c = (if has_data c then sha256 (u_data c) else u_data c)"

definition is_immutable :: "Cake \<Rightarrow> bool" where
  "is_immutable c = (has_data c \<or> is_resolved (type c))"

definition assert_portal :: "Cake \<Rightarrow> error + unit" where
  "assert_portal c = (if \<not> is_portal (type c) then Inl AssertionError else Inr ())"

definition hash_bytes :: "Cake \<Rightarrow> error + bytes" where
  "hash_bytes c = (if \<not> is_resolved (type c) then Inl AssertionError else Inr (u_data c))"

text \<open>The check that ends \<open>Cake.__init__\<close> on both of its branches.\<close>

definition check_key_length :: "Cake \<Rightarrow> error + Cake" where
  "check_key_length c =
     (if \<not> has_data c then (if length (u_data c) \<noteq> 32 then Inl AssertionError else Inr c)
      else Inr c)"

text \<open>\<open>Cake(None, data=d, type=t, role=r)\<close>: the branch of \<open>Cake.__init__\<close> taken when
  \<open>type\<close> is given.\<close>

definition Cake_of_parts :: "bytes option \<Rightarrow> CakeType \<Rightarrow> CakeRole option \<Rightarrow> error + Cake" where
  "Cake_of_parts d t r =
     (case (d, r) of
        (Some d', Some r') \<Rightarrow> check_key_length \<lparr>u_data = d', type = t, role = r'\<rparr>
      | _ \<Rightarrow> Inl AssertionError)"

definition from_digest_and_inline_data ::
  "bytes \<Rightarrow> bytes option \<Rightarrow> CakeRole \<Rightarrow> error + Cake" where
  "from_digest_and_inline_data dig buffer r =
     (if buffer \<noteq> None \<and> length (the buffer) \<le> inline_max_bytes
      then Cake_of_parts buffer INLINE (Some r)
      else Cake_of_parts (Some dig) SHA256 (Some r))"

definition from_stream :: "(bytes \<Rightarrow> bytes) \<Rightarrow> bytes \<Rightarrow> CakeRole \<Rightarrow> error + Cake" where
  "from_stream sha256 fd r =
     (case fst (process_stream sha256 fd nop_on_chunk default_chunk_size ()) of
        (dig, inline_data) \<Rightarrow> from_digest_and_inline_data dig inline_data r)"

definition from_bytes :: "(bytes \<Rightarrow> bytes) \<Rightarrow> bytes \<Rightarrow> CakeRole \<Rightarrow> error + Cake" where
  "from_bytes sha256 s r = from_stream sha256 s r"

text \<open>
  Modelled from the spec: \<open>find_by_code\<close> belongs to \<open>utils.CodeEnum\<close>, which is not among
  the sources. As the specification has it (section 4.5, "Parse from string"), it maps a code to
  the member of the enumeration that carries it; a code that no member carries raises.
\<close>

definition all_CakeTypes :: "CakeType list" where
  "all_CakeTypes = [INLINE, SHA256, PORTAL, VTREE, DMOUNT, EVENT, DAG_STATE, JSON_WRAP]"

definition CakeType_find_by_code :: "nat \<Rightarrow> error + CakeType" where
  "CakeType_find_by_code code =
     (case filter (\<lambda>t. type_code t = code) all_CakeTypes of
        [] \<Rightarrow> Inl KeyError | t # _ \<Rightarrow> Inr t)"

definition CakeRole_find_by_code :: "nat \<Rightarrow> error + CakeRole" where
  "CakeRole_find_by_code code =
     (case filter (\<lambda>r. role_code r = code) [SYNAPSE, NEURON] of
        [] \<Rightarrow> Inl KeyError | r # _ \<Rightarrow> Inr r)"

text \<open>\<open>_header\<close> and \<open>pack_in_bytes\<close>. The header is below 16 (lemma \<open>header_less\<close>), so
  \<open>bytes([header])\<close> never raises and the conversion to a byte loses nothing.\<close>

definition header :: "CakeType \<Rightarrow> CakeRole \<Rightarrow> nat" where
  "header t r = push_bit 1 (type_code t) OR role_code r"

definition pack_in_bytes :: "CakeType \<Rightarrow> CakeRole \<Rightarrow> bytes \<Rightarrow> bytes" where
  "pack_in_bytes t r data_bytes = [of_nat (header t r)] @ data_bytes"

text \<open>\<open>Cake.__str__\<close>.\<close>

definition Cake_str :: "Cake \<Rightarrow> string" where
  "Cake_str c = B62_encode (pack_in_bytes (type c) (role c) (u_data c))"

text \<open>The branch of \<open>Cake.__init__\<close> that parses the string form.\<close>

definition Cake_of_string :: "string \<Rightarrow> error + Cake" where
  "Cake_of_string s =
     (case B62_decode s of
        Inl e \<Rightarrow> Inl e
      | Inr decoded \<Rightarrow>
          (case decoded of
             [] \<Rightarrow> Inl IndexError
           | hdr # rest \<Rightarrow>
               (case CakeType_find_by_code (drop_bit 1 (unat hdr)) of
                  Inl e \<Rightarrow> Inl e
                | Inr t \<Rightarrow>
                    (case CakeRole_find_by_code (unat hdr AND 1) of
                       Inl e \<Rightarrow> Inl e
                     | Inr r \<Rightarrow> check_key_length \<lparr>u_data = rest, type = t, role = r\<rparr>))))"

text \<open>\<open>Cake.__init__(s, data, type, role)\<close>, every argument optional as in the source.
  With neither \<open>type\<close> nor \<open>s\<close> there is no string to decode and the call raises.\<close>

definition Cake_init ::
  "string option \<Rightarrow> bytes option \<Rightarrow> CakeType option \<Rightarrow> CakeRole option \<Rightarrow> error + Cake" where
  "Cake_init s d t r =
     (case t of
        Some t' \<Rightarrow> Cake_of_parts d t' r
      | None \<Rightarrow> (case s of None \<Rightarrow> Inl AttributeError | Some s' \<Rightarrow> Cake_of_string s'))"

text \<open>\<open>Cake.new_portal\<close>; \<open>urandom\<close> is the value of \<open>os.urandom(32)\<close>.\<close>

definition new_portal :: "bytes \<Rightarrow> CakeRole option \<Rightarrow> CakeType option \<Rightarrow> error + Cake" where
  "new_portal urandom r t =
     (case Cake_init None (Some urandom)
             (Some (case t of None \<Rightarrow> PORTAL | Some t' \<Rightarrow> t'))
             (Some (case r of None \<Rightarrow> SYNAPSE | Some r' \<Rightarrow> r')) of
        Inl e \<Rightarrow> Inl e
      | Inr cake \<Rightarrow> (case assert_portal cake of Inl e \<Rightarrow> Inl e | Inr _ \<Rightarrow> Inr cake))"

text \<open>\<open>Cake.transform_portal\<close>.\<close>

definition transform_portal :: "Cake \<Rightarrow> CakeRole option \<Rightarrow> CakeType option \<Rightarrow> error + Cake" where
  "transform_portal self r t =
     (case assert_portal self of
        Inl e \<Rightarrow> Inl e
      | Inr _ \<Rightarrow>
          (let t' = (case t of None \<Rightarrow> type self | Some x \<Rightarrow> x);
               r' = (case r of None \<Rightarrow> role self | Some x \<Rightarrow> x)
           in if t' = type self \<and> r' = role self then Inr self
              else Cake_init None (Some (u_data self)) (Some t') (Some r')))"

section \<open>Shards and ContentAddress\<close>

definition MAX_NUM_OF_SHARDS :: nat where
  "MAX_NUM_OF_SHARDS = 8192"

definition shard_name_int :: "nat \<Rightarrow> string" where
  "shard_name_int num = B36_encode_int num"

definition decode_shard :: "string \<Rightarrow> error + int" where
  "decode_shard name = (case B36_decode_int name of Inl e \<Rightarrow> Inl e | Inr n \<Rightarrow> Inr (int n))"

text \<open>\<open>str.lower()\<close>, on the letters \<open>A\<close> to \<open>Z\<close>.\<close>

definition lower_char :: "char \<Rightarrow> char" where
  "lower_char c =
     (case index_of c ''ABCDEFGHIJKLMNOPQRSTUVWXYZ'' of
        None \<Rightarrow> c
      | Some i \<Rightarrow> ''abcdefghijklmnopqrstuvwxyz'' ! i)"

definition lower :: "string \<Rightarrow> string" where
  "lower s = map lower_char s"

text \<open>
  \<open>is_it_shard\<close>. The decoder is a parameter (the source calls \<open>decode_shard\<close>); an exception
  of the decoder, whatever it is, is swallowed by the bare \<open>except\<close> and leaves \<open>shard_num\<close>
  at \<open>-1\<close>. The result type keeps an error branch so that "never raises" is a statement and not
  a typing convention.
\<close>

definition is_it_shard :: "(string \<Rightarrow> error + int) \<Rightarrow> string \<Rightarrow> int \<Rightarrow> error + bool" where
  "is_it_shard decoder shard_name max_num =
     (if shard_name = [] \<or> length shard_name > 3 then Inr False
      else (case decoder (lower shard_name) of
              Inl e \<Rightarrow> Inr ((-1 :: int) \<ge> 0 \<and> (-1 :: int) < max_num)
            | Inr shard_num \<Rightarrow> Inr (shard_num \<ge> 0 \<and> shard_num < max_num)))"

text \<open>\<open>shard_num\<close>: unpacking \<open>hash_bytes[:2]\<close> into two names raises unless there are two
  bytes.\<close>

definition shard_num :: "bytes \<Rightarrow> nat \<Rightarrow> error + nat" where
  "shard_num hb base =
     (case take 2 hb of
        [b1, b2] \<Rightarrow>
          if base = 0 then Inl ZeroDivisionError
          else Inr ((unat b1 * 256 + unat b2) mod base)
      | _ \<Rightarrow> Inl ValueError)"

record ContentAddress =
  ca_hash_bytes :: bytes
  ca_id :: string
  ca_shard_name :: string

text \<open>The argument of \<open>ContentAddress.__init__\<close>: a \<open>Hasher\<close> (given by the digest it holds),
  a \<open>Cake\<close> or a string.\<close>

datatype address_source = FromHasher bytes | FromCake Cake | FromString string

definition ContentAddress_init :: "address_source \<Rightarrow> error + ContentAddress" where
  "ContentAddress_init h =
     (case (case h of
              FromHasher dig \<Rightarrow> Inr (dig, B36_encode dig)
            | FromCake c \<Rightarrow>
                (case hash_bytes c of Inl e \<Rightarrow> Inl e | Inr hb \<Rightarrow> Inr (hb, B36_encode hb))
            | FromString s \<Rightarrow>
                (case B36_decode (lower s) of Inl e \<Rightarrow> Inl e | Inr hb \<Rightarrow> Inr (hb, lower s))) of
        Inl e \<Rightarrow> Inl e
      | Inr (hb, ident) \<Rightarrow>
          (case shard_num hb MAX_NUM_OF_SHARDS of
             Inl e \<Rightarrow> Inl e
           | Inr n \<Rightarrow>
               Inr \<lparr>ca_hash_bytes = hb, ca_id = ident, ca_shard_name = shard_name_int n\<rparr>))"

section \<open>Portal resolution\<close>

text \<open>
  \<open>resolve_cake_stack\<close>. The lookup \<open>session_factory(cake)\<close> followed by the query for the
  portal's \<open>latest\<close> Cake is the parameter \<open>lookup\<close>; it yields the next Cake or raises (no row,
  several rows, no session). The last component of the state counts the lookups made: it is not
  in the source, it records the effect that the loop has on the external relation.
\<close>

function resolve_loop ::
  "(Cake \<Rightarrow> error + Cake) \<Rightarrow> Cake list \<Rightarrow> Cake \<Rightarrow> nat \<Rightarrow> (error + Cake list) \<times> nat" where
  "resolve_loop lookup cake_stack cake n =
     (if is_immutable cake then (Inr (cake_stack @ [cake]), n)
      else if cake \<in> set cake_stack \<or> length (cake_stack @ [cake]) > 10
        then (Inl AssertionError, n)
      else (case lookup cake of
              Inl e \<Rightarrow> (Inl e, Suc n)
            | Inr next_cake \<Rightarrow> resolve_loop lookup (cake_stack @ [cake]) next_cake (Suc n)))"
  by pat_completeness auto
termination
  by (relation "measure (\<lambda>(lookup, cake_stack, cake, n). 11 - length cake_stack)") auto

declare resolve_loop.simps [simp del]

definition resolve_cake_stack :: "(Cake \<Rightarrow> error + Cake) \<Rightarrow> Cake \<Rightarrow> (error + Cake list) \<times> nat" where
  "resolve_cake_stack lookup cake = resolve_loop lookup [] cake 0"

text \<open>A list of Cakes in which each one is what the lookup returns for the one before.\<close>

fun linked :: "(Cake \<Rightarrow> error + Cake) \<Rightarrow> Cake list \<Rightarrow> bool" where
  "linked lookup [] = True"
| "linked lookup [c] = True"
| "linked lookup (c # d # cs) = (lookup c = Inr d \<and> linked lookup (d # cs))"

section \<open>CakeRack\<close>

text \<open>
  The dictionary \<open>store\<close> of a rack is an association list in insertion order; \<open>store[k] = v\<close>
  is \<open>AList.update\<close> (replace in place, or append), a lookup is \<open>map_of\<close>. A Python dictionary
  holds each key once: \<open>distinct (map fst store)\<close>.
\<close>

type_synonym rack = "(string \<times> Cake option) list"

datatype PatchAction = update | delete

type_synonym patch = "PatchAction \<times> string \<times> Cake option"

definition keys :: "rack \<Rightarrow> string list" where
  "keys store = sort (map fst store)"

definition contains :: "rack \<Rightarrow> string \<Rightarrow> bool" where
  "contains store k = (k \<in> set (map fst store))"

definition getitem :: "rack \<Rightarrow> string \<Rightarrow> error + Cake option" where
  "getitem store k = (case map_of store k of None \<Rightarrow> Inl KeyError | Some v \<Rightarrow> Inr v)"

definition is_neuron :: "rack \<Rightarrow> string \<Rightarrow> error + bool" where
  "is_neuron store k =
     (case getitem store k of
        Inl e \<Rightarrow> Inl e
      | Inr v \<Rightarrow> Inr (v = None \<or> role (the v) = NEURON))"

text \<open>The body of the loop of \<open>CakeRack.merge\<close> for one name: the patches it yields.\<close>

definition merge_key :: "rack \<Rightarrow> rack \<Rightarrow> string \<Rightarrow> error + patch list" where
  "merge_key self previous k =
     (if \<not> contains self k \<and> contains previous k then Inr [(delete, k, None)]
      else
        (case getitem self k of Inl e \<Rightarrow> Inl e | Inr v \<Rightarrow>
         (case is_neuron self k of Inl e \<Rightarrow> Inl e | Inr neuron \<Rightarrow>
            if contains self k \<and> \<not> contains previous k then Inr [(update, k, v)]
            else
              (case getitem previous k of Inl e \<Rightarrow> Inl e | Inr prev_v \<Rightarrow>
               (case is_neuron previous k of Inl e \<Rightarrow> Inl e | Inr prev_neuron \<Rightarrow>
                  if v \<noteq> prev_v then
                    (if neuron = True \<and> prev_neuron = True then Inr []
                     else if prev_neuron = neuron then Inr [(update, k, v)]
                     else Inr [(delete, k, None), (update, k, v)])
                  else Inr [])))))"

fun merge_keys :: "rack \<Rightarrow> rack \<Rightarrow> string list \<Rightarrow> error + patch list" where
  "merge_keys self previous [] = Inr []"
| "merge_keys self previous (k # ks) =
     (case merge_key self previous k of
        Inl e \<Rightarrow> Inl e
      | Inr ps \<Rightarrow>
          (case merge_keys self previous ks of Inl e \<Rightarrow> Inl e | Inr rest \<Rightarrow> Inr (ps @ rest)))"

text \<open>\<open>sorted(list(set(self.keys() + previous.keys())))\<close> is \<open>sort (remdups \<dots>)\<close>.\<close>

definition merge :: "rack \<Rightarrow> rack \<Rightarrow> error + patch list" where
  "merge self previous = merge_keys self previous (sort (remdups (keys self @ keys previous)))"

text \<open>
  The six rows of the merge table of the specification (section 4.6), written from its words, for
  comparison with \<open>merge_key\<close>. A name is neuron-like in a rack when its value is null or has
  role \<open>NEURON\<close>.
\<close>

definition neuron_like :: "rack \<Rightarrow> string \<Rightarrow> bool" where
  "neuron_like r k =
     (case map_of r k of
        Some None \<Rightarrow> True
      | Some (Some c) \<Rightarrow> role c = NEURON
      | None \<Rightarrow> False)"

definition merge_table :: "rack \<Rightarrow> rack \<Rightarrow> string \<Rightarrow> patch list" where
  "merge_table new prev k =
     (if map_of new k = None \<and> map_of prev k \<noteq> None then [(delete, k, None)]
      else if map_of new k \<noteq> None \<and> map_of prev k = None then [(update, k, the (map_of new k))]
      else if map_of new k = map_of prev k then []
      else if neuron_like new k \<and> neuron_like prev k then []
      else if neuron_like new k = neuron_like prev k then [(update, k, the (map_of new k))]
      else [(delete, k, None), (update, k, the (map_of new k))])"

subsection \<open>Serialization and parsing\<close>

text \<open>The fragment of JSON that a rack uses.\<close>

datatype json = JNull | JString string | JArray "json list"

definition get_cakes :: "rack \<Rightarrow> string list \<Rightarrow> error + Cake option list" where
  "get_cakes store names =
     (if \<forall>k \<in> set names. contains store k then Inr (map (\<lambda>k. the (map_of store k)) names)
      else Inl KeyError)"

definition to_json :: "rack \<Rightarrow> error + string list \<times> Cake option list" where
  "to_json store =
     (case get_cakes store (keys store) of
        Inl e \<Rightarrow> Inl e
      | Inr cakes \<Rightarrow> Inr (keys store, cakes))"

text \<open>
  Modelled from the spec: \<open>Jsonable.__str__\<close>, \<open>Cake.ensure_it_or_none\<close> and \<open>ensure_bytes\<close>
  belong to \<open>hashstore.utils\<close>, which is not among the sources. By section 4.6 of the
  specification, \<open>str(rack)\<close> is \<open>json.dumps\<close> of the two-column array of \<open>to_json\<close> with each
  Cake rendered as its base-62 string and \<open>null\<close> for an undefined entry; on parsing, a cake is
  \<open>null\<close> or a string that \<open>Cake\<close> parses; the bytes of a rack are the bytes of that text.
  \<open>json.dumps\<close> and \<open>json.loads\<close> are the parameters \<open>dumps\<close> and \<open>loads\<close>.
\<close>

definition cake_json :: "Cake option \<Rightarrow> json" where
  "cake_json v = (case v of None \<Rightarrow> JNull | Some c \<Rightarrow> JString (Cake_str c))"

definition rack_json :: "string list \<times> Cake option list \<Rightarrow> json" where
  "rack_json tj = JArray [JArray (map JString (fst tj)), JArray (map cake_json (snd tj))]"

definition rack_str :: "(json \<Rightarrow> string) \<Rightarrow> rack \<Rightarrow> error + string" where
  "rack_str dumps store =
     (case to_json store of Inl e \<Rightarrow> Inl e | Inr tj \<Rightarrow> Inr (dumps (rack_json tj)))"

definition ensure_bytes :: "string \<Rightarrow> bytes" where
  "ensure_bytes s = map (\<lambda>c. of_nat (of_char c)) s"

definition ensure_it_or_none :: "json \<Rightarrow> error + Cake option" where
  "ensure_it_or_none j =
     (case j of
        JNull \<Rightarrow> Inr None
      | JString s \<Rightarrow>
          (case Cake_init (Some s) None None None of Inl e \<Rightarrow> Inl e | Inr c \<Rightarrow> Inr (Some c))
      | JArray _ \<Rightarrow> Inl TypeError)"

text \<open>
  A name becomes a key of the dictionary: a string is a key, a list is unhashable and raises.
  \<open>null\<close> would become the key \<open>None\<close>, which the type of the store
  (\<open>Dict[str, Optional[Cake]]\<close>) excludes; the model keeps string keys and raises there too.
\<close>

definition name_key :: "json \<Rightarrow> error + string" where
  "name_key j =
     (case j of
        JString s \<Rightarrow> Inr s
      | JArray _ \<Rightarrow> Inl TypeError
      | JNull \<Rightarrow> Inl TypeError)"

text \<open>
  The pairs that \<open>zip(names, map(Cake.ensure_it_or_none, cakes))\<close> hands to \<open>store.update\<close>,
  one at a time as the lazy iterators give them: the next name is taken, then the next cake is
  converted, then the pair is stored under the name. The shorter of the two lists ends the
  iteration, and so does the first exception (the model then reports the exception, not the
  entries stored before it).
\<close>

fun parse_pairs :: "json list \<Rightarrow> json list \<Rightarrow> error + (string \<times> Cake option) list" where
  "parse_pairs [] cakes = Inr []"
| "parse_pairs (n # names) [] = Inr []"
| "parse_pairs (n # names) (c # cakes) =
     (case ensure_it_or_none c of
        Inl e \<Rightarrow> Inl e
      | Inr v \<Rightarrow>
          (case name_key n of
             Inl e \<Rightarrow> Inl e
           | Inr k \<Rightarrow>
               (case parse_pairs names cakes of
                  Inl e \<Rightarrow> Inl e
                | Inr ps \<Rightarrow> Inr ((k, v) # ps))))"

text \<open>Iterating over a decoded JSON value, as tuple unpacking and \<open>zip\<close> do: an array gives
  its elements, a string its characters, \<open>null\<close> raises.\<close>

definition json_iter :: "json \<Rightarrow> error + json list" where
  "json_iter j =
     (case j of
        JArray xs \<Rightarrow> Inr xs
      | JString s \<Rightarrow> Inr (map (\<lambda>c. JString [c]) s)
      | JNull \<Rightarrow> Inl TypeError)"

text \<open>\<open>CakeRack.cake\<close> and the caches it goes through (\<open>in_bytes\<close>, \<open>content\<close>).\<close>

definition rack_cake :: "(bytes \<Rightarrow> bytes) \<Rightarrow> (json \<Rightarrow> string) \<Rightarrow> rack \<Rightarrow> error + Cake" where
  "rack_cake sha256 dumps store =
     (case rack_str dumps store of
        Inl e \<Rightarrow> Inl e
      | Inr content \<Rightarrow>
          from_digest_and_inline_data (sha256 (ensure_bytes content))
            (Some (ensure_bytes content)) NEURON)"

text \<open>\<open>CakeRack.parse\<close> of a string: \<open>names, cakes = json.loads(o)\<close>, then
  \<open>store.update(zip(names, map(Cake.ensure_it_or_none, cakes)))\<close>.\<close>

definition parse :: "(string \<Rightarrow> error + json) \<Rightarrow> rack \<Rightarrow> string \<Rightarrow> error + rack" where
  "parse loads store o_str =
     (case loads o_str of
        Inl e \<Rightarrow> Inl e
      | Inr j \<Rightarrow>
          (case json_iter j of
             Inl e \<Rightarrow> Inl e
           | Inr [names, cakes] \<Rightarrow>
               (case json_iter names of
                  Inl e \<Rightarrow> Inl e
                | Inr names' \<Rightarrow>
                    (case json_iter cakes of
                       Inl e \<Rightarrow> Inl e
                     | Inr cakes' \<Rightarrow>
                         (case parse_pairs names' cakes' of
                            Inl e \<Rightarrow> Inl e
                          | Inr ps \<Rightarrow>
                              Inr (AList.updates (map fst ps) (map snd ps) store))))
           | Inr _ \<Rightarrow> Inl ValueError))"

section \<open>SaltedSha\<close>

record SaltedSha =
  ssha_digest :: bytes
  salt :: bytes

definition SSHA_MARK :: string where
  "SSHA_MARK = ''{SSHA}''"

text \<open>\<open>SaltedSha.__init__(s)\<close> for a string \<open>s\<close>; \<open>b64decode\<close> is \<open>base64.b64decode\<close>.\<close>

definition SaltedSha_init :: "(string \<Rightarrow> error + bytes) \<Rightarrow> string \<Rightarrow> error + SaltedSha" where
  "SaltedSha_init b64decode s =
     (if SSHA_MARK = take (length SSHA_MARK) s then
        (case b64decode (drop (length SSHA_MARK) s) of
           Inl e \<Rightarrow> Inl e
         | Inr challenge_bytes \<Rightarrow>
             Inr \<lparr>ssha_digest = take 20 challenge_bytes, salt = drop 20 challenge_bytes\<rparr>)
      else Inl AssertionError)"

text \<open>
  A decoder for canonical base64 text (groups of four characters of the standard alphabet, the
  last group padded with \<open>=\<close>), on which it computes what \<open>base64.b64decode\<close> computes; any
  other text is rejected. It gives the examples below a concrete decoder.
\<close>

definition b64_alphabet :: string where
  "b64_alphabet = ''ABCDEFGHIJKLMNOPQRSTUVWXYZabcdefghijklmnopqrstuvwxyz0123456789+/''"

definition b64_group :: "nat \<Rightarrow> bytes" where
  "b64_group n = [of_nat (n div 65536), of_nat (n div 256 mod 256), of_nat (n mod 256)]"

fun b64decode_canonical :: "string \<Rightarrow> error + bytes" where
  "b64decode_canonical [] = Inr []"
| "b64decode_canonical (a # b # c # d # rest) =
     (case (index_of a b64_alphabet, index_of b b64_alphabet) of
        (Some x, Some y) \<Rightarrow>
          (if c = CHR ''='' \<and> d = CHR ''='' \<and> rest = []
             then Inr (take 1 (b64_group ((x * 64 + y) * 4096)))
           else (case index_of c b64_alphabet of
                   None \<Rightarrow> Inl LibraryError
                 | Some z \<Rightarrow>
                     (if d = CHR ''='' \<and> rest = []
                        then Inr (take 2 (b64_group (((x * 64 + y) * 64 + z) * 64)))
                      else (case index_of d b64_alphabet of
                              None \<Rightarrow> Inl LibraryError
                            | Some w \<Rightarrow>
                                (case b64decode_canonical rest of
                                   Inl e \<Rightarrow> Inl e
                                 | Inr bs \<Rightarrow>
                                     Inr (b64_group (((x * 64 + y) * 64 + z) * 64 + w) @ bs))))))
      | _ \<Rightarrow> Inl LibraryError)"
| "b64decode_canonical _ = Inl LibraryError"

section \<open>Properties of stream processing\<close>

lemma process_chunks_whole:
  "0 < chunk_size \<Longrightarrow>
   process_chunks on_chunk chunk_size fd (inl, hashed, len, obs) = (inl', hashed', len', obs')
    \<Longrightarrow> hashed' = hashed @ fd \<and> len' = len + length fd
      \<and> (len + length fd \<le> inline_max_bytes \<longrightarrow> inl' = inl @ fd)"
proof (induction on_chunk chunk_size fd "(inl, hashed, len, obs)"
    arbitrary: inl hashed len obs rule: process_chunks.induct)
  case (1 on_chunk chunk_size fd inline_data hashed len obs)
  show ?case
  proof (cases "fd = []")
    case True
    with "1.prems"(2) show ?thesis
      by (simp add: process_chunks.simps[of _ _ "[]"])
  next
    case False
    let ?chunk = "take chunk_size fd"
    from False "1.prems"(1) have ne: "\<not> length ?chunk \<le> 0"
      by (cases fd) auto
    have split: "?chunk @ drop chunk_size fd = fd" by simp
    have lens: "length ?chunk + length (drop chunk_size fd) = length fd"
      by (metis length_append split)
    have unfold: "process_chunks on_chunk chunk_size fd (inline_data, hashed, len, obs) =
       process_chunks on_chunk chunk_size (drop chunk_size fd)
         (if len + length ?chunk \<le> inline_max_bytes then inline_data @ ?chunk else inline_data,
          hashed @ ?chunk, len + length ?chunk, on_chunk obs ?chunk)"
      by (subst process_chunks.simps) (simp only: ne if_False)
    from "1.prems"(2) have run:
      "process_chunks on_chunk chunk_size (drop chunk_size fd)
         (if len + length ?chunk \<le> inline_max_bytes then inline_data @ ?chunk else inline_data,
          hashed @ ?chunk, len + length ?chunk, on_chunk obs ?chunk)
       = (inl', hashed', len', obs')"
      by (simp only: unfold)
    from "1.hyps"[OF ne "1.prems"(1) run] have ih:
      "hashed' = (hashed @ ?chunk) @ drop chunk_size fd"
      "len' = (len + length ?chunk) + length (drop chunk_size fd)"
      "(len + length ?chunk) + length (drop chunk_size fd) \<le> inline_max_bytes \<longrightarrow>
         inl' = (if len + length ?chunk \<le> inline_max_bytes then inline_data @ ?chunk
                 else inline_data) @ drop chunk_size fd"
      by auto
    from ih(1) have h: "hashed' = hashed @ fd" by simp
    from ih(2) lens have l: "len' = len + length fd" by simp
    have i: "len + length fd \<le> inline_max_bytes \<longrightarrow> inl' = inline_data @ fd"
    proof
      assume le: "len + length fd \<le> inline_max_bytes"
      with lens have "len + length ?chunk \<le> inline_max_bytes" by linarith
      moreover from le lens
      have "(len + length ?chunk) + length (drop chunk_size fd) \<le> inline_max_bytes" by linarith
      ultimately have "inl' = (inline_data @ ?chunk) @ drop chunk_size fd" using ih(3) by simp
      then show "inl' = inline_data @ fd" by simp
    qed
    from h l i show ?thesis by blast
  qed
qed

lemma process_stream_result:
  assumes "0 < chunk_size"
  shows "fst (process_stream sha256 fd on_chunk chunk_size obs) =
    (sha256 fd, if length fd > inline_max_bytes then None else Some fd)"
proof -
  obtain inl hashed len obs' where
    run: "process_chunks on_chunk chunk_size fd ([], [], 0, obs) = (inl, hashed, len, obs')"
    by (metis prod_cases4)
  from process_chunks_whole[OF assms run]
  have "hashed = fd" "len = length fd" "length fd \<le> inline_max_bytes \<longrightarrow> inl = fd"
    by auto
  with run show ?thesis by (auto simp: process_stream_def)
qed

lemma from_stream_cases:
  "from_stream sha256 fd r =
     (if length fd \<le> 32 then Inr \<lparr>u_data = fd, type = INLINE, role = r\<rparr>
      else if length (sha256 fd) \<noteq> 32 then Inl AssertionError
      else Inr \<lparr>u_data = sha256 fd, type = SHA256, role = r\<rparr>)"
proof -
  have "fst (process_stream sha256 fd nop_on_chunk default_chunk_size ()) =
    (sha256 fd, if length fd > inline_max_bytes then None else Some fd)"
    by (rule process_stream_result) (simp add: default_chunk_size_def)
  then show ?thesis
    by (simp add: from_stream_def from_digest_and_inline_data_def Cake_of_parts_def
        check_key_length_def has_data_def inline_max_bytes_def)
qed

section \<open>Properties of the base-N codec\<close>

lemma from_digits_snoc: "from_digits b (ds @ [d]) = from_digits b ds * b + d"
  by (simp add: from_digits_def)

lemma from_digits_Nil: "from_digits b [] = 0"
  by (simp add: from_digits_def)

lemma to_digits_0: "to_digits b 0 = []"
  by (simp add: to_digits.simps)

lemma to_digits_step:
  "2 \<le> b \<Longrightarrow> 0 < n \<Longrightarrow> to_digits b n = to_digits b (n div b) @ [n mod b]"
  by (subst to_digits.simps) simp

lemma from_to_digits: "2 \<le> b \<Longrightarrow> from_digits b (to_digits b n) = n"
proof (induction b n rule: to_digits.induct)
  case (1 base n)
  show ?case
  proof (cases "n = 0")
    case True
    then show ?thesis by (simp add: to_digits_0 from_digits_Nil)
  next
    case False
    with "1.prems" have "\<not> (n = 0 \<or> base < 2)" by simp
    from "1.IH"[OF this "1.prems"] False "1.prems" show ?thesis
      by (simp add: to_digits_step from_digits_snoc)
  qed
qed

lemma to_digits_lt: "d \<in> set (to_digits b n) \<Longrightarrow> d < b"
proof (induction b n rule: to_digits.induct)
  case (1 base n)
  show ?case
  proof (cases "n = 0 \<or> base < 2")
    case True
    with "1.prems" show ?thesis by (simp add: to_digits.simps)
  next
    case False
    with "1.prems" have "d \<in> set (to_digits base (n div base)) \<or> d = n mod base"
      by (subst (asm) to_digits.simps) auto
    with "1.IH"[OF False] False show ?thesis by auto
  qed
qed

lemma to_digits_hd: "to_digits b n \<noteq> [] \<Longrightarrow> hd (to_digits b n) \<noteq> 0"
proof (induction b n rule: to_digits.induct)
  case (1 base n)
  show ?case
  proof (cases "n = 0 \<or> base < 2")
    case True
    with "1.prems" show ?thesis by (simp add: to_digits.simps)
  next
    case False
    then have step: "to_digits base n = to_digits base (n div base) @ [n mod base]"
      by (subst to_digits.simps) simp
    show ?thesis
    proof (cases "to_digits base (n div base) = []")
      case True
      then have "n div base = 0" using False by (subst (asm) to_digits.simps) (simp split: if_splits)
      with False have "n mod base = n" by (simp add: div_eq_0_iff)
      with step True False show ?thesis by simp
    next
      case False': False
      with "1.IH"[OF False False'] step show ?thesis by simp
    qed
  qed
qed

lemma from_digits_pos: "ds \<noteq> [] \<Longrightarrow> hd ds \<noteq> 0 \<Longrightarrow> 0 < b \<Longrightarrow> 0 < from_digits b ds"
proof (induction ds rule: rev_induct)
  case Nil
  then show ?case by simp
next
  case (snoc d ds)
  show ?case
  proof (cases "ds = []")
    case True
    with snoc.prems show ?thesis by (simp add: from_digits_def)
  next
    case False
    with snoc have "0 < from_digits b ds" by simp
    with snoc.prems show ?thesis by (simp add: from_digits_snoc)
  qed
qed

lemma to_from_digits:
  "2 \<le> b \<Longrightarrow> \<forall>d\<in>set ds. d < b \<Longrightarrow> ds = [] \<or> hd ds \<noteq> 0 \<Longrightarrow>
   to_digits b (from_digits b ds) = ds"
proof (induction ds rule: rev_induct)
  case Nil
  then show ?case by (simp add: from_digits_Nil to_digits_0)
next
  case (snoc d ds)
  have d: "d < b" using snoc.prems by simp
  show ?case
  proof (cases "ds = []")
    case True
    with snoc.prems have "0 < d" by simp
    have "from_digits b [d] = d" by (simp add: from_digits_def)
    with d snoc.prems(1) True \<open>0 < d\<close> show ?thesis
      by (simp add: to_digits_step to_digits_0)
  next
    case False
    with snoc.prems have hd: "hd ds \<noteq> 0" by simp
    with False snoc.prems(1) have pos: "0 < from_digits b ds" by (simp add: from_digits_pos)
    from snoc.IH snoc.prems hd have ih: "to_digits b (from_digits b ds) = ds" by simp
    from pos snoc.prems(1) have "0 < from_digits b ds * b + d" by simp
    with snoc.prems(1) d ih show ?thesis
      by (simp add: from_digits_snoc to_digits_step)
  qed
qed

lemma index_of_nth: "distinct xs \<Longrightarrow> d < length xs \<Longrightarrow> index_of (xs ! d) xs = Some d"
proof (induction xs arbitrary: d)
  case Nil
  then show ?case by simp
next
  case (Cons x xs)
  show ?case
  proof (cases d)
    case 0
    then show ?thesis by simp
  next
    case (Suc k)
    with Cons.prems have "xs ! k \<in> set xs" "x \<notin> set xs" by auto
    then have "x \<noteq> xs ! k" by auto
    with Suc Cons show ?thesis by simp
  qed
qed

lemma decode_encode_digits:
  "distinct alphabet \<Longrightarrow> \<forall>d\<in>set ds. d < length alphabet \<Longrightarrow>
   decode_digits alphabet (encode_digits alphabet ds) = Inr ds"
  by (induction ds) (simp_all add: encode_digits_def index_of_nth)

lemma encode_digits_no_zero:
  assumes "distinct alphabet" "\<forall>d\<in>set ds. d < length alphabet" "ds = [] \<or> hd ds \<noteq> 0"
  shows "encode_digits alphabet ds = [] \<or> hd (encode_digits alphabet ds) \<noteq> alphabet ! 0"
proof (cases ds)
  case Nil
  then show ?thesis by (simp add: encode_digits_def)
next
  case (Cons d ds')
  with assms have "d \<noteq> 0" "d < length alphabet" by auto
  with assms(1) have "alphabet ! d \<noteq> alphabet ! 0"
    by (metis nth_eq_iff_index_eq gr_zeroI less_trans)
  with Cons show ?thesis by (simp add: encode_digits_def)
qed

lemma takeWhile_replicate_prefix:
  "ys = [] \<or> hd ys \<noteq> c \<Longrightarrow> takeWhile (\<lambda>x. x = c) (replicate z c @ ys) = replicate z c"
  by (induction z) (auto simp: takeWhile_eq_Nil_iff)

lemma dropWhile_replicate_prefix:
  "ys = [] \<or> hd ys \<noteq> c \<Longrightarrow> dropWhile (\<lambda>x. x = c) (replicate z c @ ys) = ys"
  by (induction z) (auto simp: dropWhile_eq_self_iff)

lemma takeWhile_zero_replicate:
  "replicate (length (takeWhile (\<lambda>b. b = c) v)) c = takeWhile (\<lambda>b. b = c) v"
  by (induction v) auto

lemma bytes_digits:
  fixes v :: bytes
  shows "map of_nat (to_digits 256 (from_digits 256 (map unat (dropWhile (\<lambda>b. b = 0) v))))
    = dropWhile (\<lambda>b. b = 0) v"
proof -
  let ?r = "dropWhile (\<lambda>b. b = 0) v"
  have lt: "\<forall>d\<in>set (map unat ?r). d < 256"
  proof
    fix d assume "d \<in> set (map unat ?r)"
    then obtain w :: byte where "d = unat w" by auto
    moreover have "unat w < 2 ^ LENGTH(8)" by (rule unsigned_less)
    ultimately show "d < 256" by simp
  qed
  have hd: "map unat ?r = [] \<or> hd (map unat ?r) \<noteq> 0"
  proof (cases ?r)
    case Nil
    then show ?thesis by simp
  next
    case (Cons w ws)
    then have "?r \<noteq> []" by simp
    then have "\<not> (\<lambda>b. b = 0) (hd ?r)" by (rule hd_dropWhile)
    with Cons have "w \<noteq> 0" by simp
    then have "unat w \<noteq> 0" by (simp add: unat_eq_0)
    with Cons show ?thesis by simp
  qed
  have "to_digits 256 (from_digits 256 (map unat ?r)) = map unat ?r"
    by (rule to_from_digits) (use lt hd in simp_all)
  then show ?thesis by (simp add: comp_def)
qed

lemma decode_encode:
  assumes "distinct alphabet" "2 \<le> length alphabet"
  shows "decode alphabet (encode alphabet v) = Inr v"
proof -
  let ?n = "from_digits 256 (map unat (dropWhile (\<lambda>b. b = 0) v))"
  let ?ds = "to_digits (length alphabet) ?n"
  let ?z = "length (takeWhile (\<lambda>b. b = 0) v)"
  have lt: "\<forall>d\<in>set ?ds. d < length alphabet" by (simp add: to_digits_lt)
  have hd: "?ds = [] \<or> hd ?ds \<noteq> 0" using to_digits_hd by blast
  have nz: "encode_digits alphabet ?ds = [] \<or> hd (encode_digits alphabet ?ds) \<noteq> alphabet ! 0"
    by (rule encode_digits_no_zero[OF assms(1) lt hd])
  have enc: "encode alphabet v = replicate ?z (alphabet ! 0) @ encode_digits alphabet ?ds"
    by (simp add: encode_def)
  have dr: "dropWhile (\<lambda>c. c = alphabet ! 0) (encode alphabet v) = encode_digits alphabet ?ds"
    unfolding enc by (rule dropWhile_replicate_prefix[OF nz])
  have tk: "takeWhile (\<lambda>c. c = alphabet ! 0) (encode alphabet v) = replicate ?z (alphabet ! 0)"
    unfolding enc by (rule takeWhile_replicate_prefix[OF nz])
  have di: "decode_int alphabet (encode_digits alphabet ?ds) = Inr ?n"
    by (simp add: decode_int_def decode_encode_digits[OF assms(1) lt] from_to_digits[OF assms(2)])
  have "decode alphabet (encode alphabet v) =
      Inr (replicate ?z 0 @ map of_nat (to_digits 256 ?n))"
    by (simp add: decode_def dr tk di)
  also have "replicate ?z 0 @ map of_nat (to_digits 256 ?n) =
      takeWhile (\<lambda>b. b = 0) v @ dropWhile (\<lambda>b. b = 0) v"
    by (simp only: bytes_digits takeWhile_zero_replicate)
  finally show ?thesis by simp
qed

lemma from_digits_Cons:
  "from_digits b (d # ds) = d * b ^ length ds + from_digits b ds"
proof (induction ds arbitrary: d rule: rev_induct)
  case Nil
  then show ?case by (simp add: from_digits_def)
next
  case (snoc x xs)
  have "from_digits b (d # xs @ [x]) = from_digits b ((d # xs) @ [x])" by simp
  also have "\<dots> = from_digits b (d # xs) * b + x" by (rule from_digits_snoc)
  also have "\<dots> = (d * b ^ length xs + from_digits b xs) * b + x" by (simp only: snoc.IH)
  also have "\<dots> = d * b ^ length (xs @ [x]) + from_digits b (xs @ [x])"
    by (simp add: from_digits_snoc algebra_simps)
  finally show ?case .
qed

lemma from_digits_less:
  "\<forall>d\<in>set ds. d < b \<Longrightarrow> from_digits b ds < b ^ length ds"
proof (induction ds rule: rev_induct)
  case Nil
  then show ?case by (simp add: from_digits_def)
next
  case (snoc x xs)
  then have ih: "from_digits b xs < b ^ length xs" and x: "x < b" by simp_all
  from ih have "from_digits b xs + 1 \<le> b ^ length xs" by simp
  then have "(from_digits b xs + 1) * b \<le> b ^ length xs * b" by (rule mult_le_mono1)
  with x show ?case by (simp add: from_digits_snoc algebra_simps)
qed

lemma to_digits_length:
  "2 \<le> b \<Longrightarrow> b ^ k \<le> n \<Longrightarrow> n < b ^ Suc k \<Longrightarrow> length (to_digits b n) = Suc k"
proof (induction k arbitrary: n)
  case 0
  then have "0 < n" "n div b = 0" by simp_all
  with 0 show ?case by (simp add: to_digits_step to_digits_0)
next
  case (Suc k)
  from Suc.prems have pos: "0 < n" "0 < b"
    by (auto intro: Suc_leI less_le_trans[of 0 "b ^ Suc k"])
  from Suc.prems(2) have "b ^ k * b \<le> n" by (simp add: mult.commute)
  then have lo: "b ^ k \<le> n div b" using pos(2) by (simp add: less_eq_div_iff_mult_less_eq)
  from Suc.prems(3) have "n < b ^ Suc k * b" by (simp add: mult.commute)
  then have hi: "n div b < b ^ Suc k" using pos(2) by (simp add: div_less_iff_less_mult)
  from Suc.IH[OF Suc.prems(1) lo hi] Suc.prems(1) pos show ?case
    by (simp add: to_digits_step)
qed

section \<open>Properties of the Cake string form\<close>

lemma distinct_alphabet62: "distinct alphabet62"
  by (simp add: alphabet62_def)
lemma length_alphabet62: "length alphabet62 = 62"
  by (simp add: alphabet62_def)
lemma distinct_alphabet36: "distinct alphabet36"
  by (simp add: alphabet36_def)
lemma length_alphabet36: "length alphabet36 = 36"
  by (simp add: alphabet36_def)

lemma B62_round_trip: "B62_decode (B62_encode v) = Inr v"
  unfolding B62_decode_def B62_encode_def
  by (rule decode_encode) (simp_all add: distinct_alphabet62 length_alphabet62)

lemma header_less: "header t r < 16"
  by (cases t; cases r) (simp_all add: header_def)

lemma header_split:
  "drop_bit (Suc 0) (header t r) = type_code t" "header t r mod 2 = role_code r"
  by (cases t; cases r; simp add: header_def)+

lemma unat_header: "unat (of_nat (header t r) :: byte) = header t r"
proof -
  have "header t r < 2 ^ LENGTH(8)" using header_less[of t r] by simp
  then show ?thesis by (simp add: unat_of_nat)
qed

lemma CakeType_find_by_code_code: "CakeType_find_by_code (type_code t) = Inr t"
  by (cases t) (simp_all add: CakeType_find_by_code_def all_CakeTypes_def)

lemma CakeRole_find_by_code_code: "CakeRole_find_by_code (role_code r) = Inr r"
  by (cases r) (simp_all add: CakeRole_find_by_code_def)

lemma Cake_of_string_str:
  "Cake_of_string (Cake_str c) = check_key_length c"
  by (cases c) (simp add: Cake_of_string_def Cake_str_def B62_round_trip pack_in_bytes_def
      unat_header header_split CakeType_find_by_code_code CakeRole_find_by_code_code)

lemma portal_header_range: "is_portal t \<Longrightarrow> 4 \<le> header t r \<and> header t r \<le> 13"
  by (cases t; cases r) (simp_all add: is_portal_def is_vtree_def header_def)

lemma unat_byte_less: "\<forall>d\<in>set (map unat (v :: bytes)). d < 256"
proof
  fix d assume "d \<in> set (map unat v)"
  then obtain w :: byte where "d = unat w" by auto
  moreover have "unat w < 2 ^ LENGTH(8)" by (rule unsigned_less)
  ultimately show "d < 256" by simp
qed

lemma portal_str_length_aux:
  assumes "is_portal (type c)" "length (u_data c) = 32"
  shows "length (Cake_str c) = 44"
proof -
  let ?h = "header (type c) (role c)"
  let ?v = "pack_in_bytes (type c) (role c) (u_data c)"
  let ?r = "from_digits 256 (map unat (u_data c))"
  let ?n = "from_digits 256 (map unat ?v)"
  from portal_header_range[OF assms(1)] have h: "4 \<le> ?h" "?h \<le> 13" by simp_all
  have v: "?v = of_nat ?h # u_data c" by (simp add: pack_in_bytes_def)
  have "unat (of_nat ?h :: byte) \<noteq> 0" using h by (simp add: unat_header)
  then have nz: "(of_nat ?h :: byte) \<noteq> 0" by (simp add: unat_eq_0)
  have n: "?n = ?h * 256 ^ 32 + ?r"
    by (simp only: v list.map from_digits_Cons unat_header length_map assms(2))
  have "?r < 256 ^ length (map unat (u_data c))"
    by (rule from_digits_less) (rule unat_byte_less)
  then have r: "?r < 256 ^ 32" by (simp add: assms(2))
  have lo: "(62::nat) ^ 43 \<le> ?n"
  proof -
    have "(62::nat) ^ 43 \<le> 4 * 256 ^ 32" by simp
    also have "\<dots> \<le> ?h * 256 ^ 32" using h(1) by simp
    also have "\<dots> \<le> ?n" by (simp add: n)
    finally show ?thesis .
  qed
  have hi: "?n < (62::nat) ^ Suc 43"
  proof -
    have "?n < ?h * 256 ^ 32 + 256 ^ 32" using r by (simp add: n)
    also have "\<dots> = (?h + 1) * 256 ^ 32" by simp
    also have "\<dots> \<le> 14 * 256 ^ 32" using h(2) by simp
    also have "\<dots> \<le> (62::nat) ^ Suc 43" by simp
    finally show ?thesis .
  qed
  have len: "length (to_digits 62 ?n) = Suc 43"
    by (rule to_digits_length[OF _ lo hi]) simp
  have "Cake_str c = encode_digits alphabet62 (to_digits 62 ?n)"
    by (simp add: Cake_str_def B62_encode_def encode_def v nz length_alphabet62)
  then show ?thesis by (simp add: encode_digits_def len)
qed

section \<open>Inline boundary, round trip and length of the string form\<close>

text \<open>
  C1 (inline boundary). For every byte string \<open>b\<close> of at most 32 bytes, \<open>Cake.from_bytes(b)\<close>
  is a Cake of type \<open>INLINE\<close> whose \<open>data()\<close> is \<open>b\<close>. For every \<open>b\<close> of exactly 33 bytes it is
  a Cake of type \<open>SHA256\<close> whose \<open>has_data()\<close> is false and whose payload is the SHA-256 digest
  of \<open>b\<close>; that \<open>hashlib\<close> digests are 32 bytes long is the hypothesis on \<open>sha256\<close>.
\<close>

theorem from_bytes_inline_boundary:
  "(length b \<le> 32 \<longrightarrow>
      (\<exists>c. from_bytes sha256 b r = Inr c \<and> type c = INLINE \<and> role c = r
           \<and> has_data c \<and> cake_data c = Some b))
   \<and> (length b = 33 \<and> length (sha256 b) = 32 \<longrightarrow>
      (\<exists>c. from_bytes sha256 b r = Inr c \<and> type c = SHA256 \<and> role c = r
           \<and> \<not> has_data c \<and> cake_data c = None
           \<and> u_data c = sha256 b \<and> length (u_data c) = 32))"
  by (simp add: from_bytes_def from_stream_cases has_data_def cake_data_def)

theorem from_bytes_inline_boundary_witness:
  "length [0x61 :: byte] \<le> 32
   \<and> from_bytes (\<lambda>_. replicate 32 0) [0x61] SYNAPSE
       = Inr \<lparr>u_data = [0x61], type = INLINE, role = SYNAPSE\<rparr>
   \<and> length (replicate 33 (0x61 :: byte)) = 33
   \<and> length ((\<lambda>_. replicate 32 (0 :: byte)) (replicate 33 (0x61 :: byte))) = 32
   \<and> from_bytes (\<lambda>_. replicate 32 0) (replicate 33 0x61) SYNAPSE
       = Inr \<lparr>u_data = replicate 32 0, type = SHA256, role = SYNAPSE\<rparr>"
  using from_bytes_inline_boundary[of "[0x61]" "\<lambda>_. replicate 32 0" SYNAPSE]
    from_bytes_inline_boundary[of "replicate 33 0x61" "\<lambda>_. replicate 32 0" SYNAPSE]
  by (auto simp: cake_data_def has_data_def)

text \<open>
  C2 (Cake round trip). For every Cake \<open>c\<close>, of any type and role and with data that passes
  the length check of the constructor (any payload for \<open>INLINE\<close>, 32 bytes otherwise), parsing
  the string form \<open>str(c)\<close> yields a Cake equal to \<open>c\<close> in data, type and role.
\<close>

theorem cake_round_trip:
  "check_key_length c = Inr c \<Longrightarrow> Cake_init (Some (Cake_str c)) None None None = Inr c"
  by (simp add: Cake_init_def Cake_of_string_str)

theorem cake_round_trip_witness:
  "check_key_length \<lparr>u_data = [0x61], type = INLINE, role = NEURON\<rparr>
     = Inr \<lparr>u_data = [0x61], type = INLINE, role = NEURON\<rparr>
   \<and> Cake_init (Some (Cake_str \<lparr>u_data = [0x61], type = INLINE, role = NEURON\<rparr>)) None None None
     = Inr \<lparr>u_data = [0x61], type = INLINE, role = NEURON\<rparr>"
  using cake_round_trip[of "\<lparr>u_data = [0x61], type = INLINE, role = NEURON\<rparr>"]
  by (simp add: check_key_length_def has_data_def)

text \<open>
  C8 (portal Cakes are 44 characters long). For every Cake of a portal type (\<open>PORTAL\<close>,
  \<open>VTREE\<close>, \<open>DMOUNT\<close>, \<open>DAG_STATE\<close>), of any role, with a payload of 32 bytes, the base-62
  string form has exactly 44 characters; in particular so has every Cake that \<open>new_portal\<close>
  returns from 32 random bytes.
\<close>

theorem portal_cake_str_length:
  "(is_portal (type c) \<and> length (u_data c) = 32 \<longrightarrow> length (Cake_str c) = 44)
   \<and> (length urandom = 32 \<and> new_portal urandom r t = Inr c' \<longrightarrow> length (Cake_str c') = 44)"
proof (intro conjI impI)
  assume "is_portal (type c) \<and> length (u_data c) = 32"
  then show "length (Cake_str c) = 44" by (simp add: portal_str_length_aux)
next
  assume a: "length urandom = 32 \<and> new_portal urandom r t = Inr c'"
  then have "is_portal (type c')" "u_data c' = urandom"
    by (auto simp: new_portal_def Cake_init_def Cake_of_parts_def check_key_length_def
        assert_portal_def split: sum.splits if_splits)
  with a show "length (Cake_str c') = 44" by (simp add: portal_str_length_aux)
qed

theorem portal_cake_str_length_witness:
  "is_portal (type \<lparr>u_data = replicate 32 0xFF, type = DAG_STATE, role = NEURON\<rparr>)
   \<and> length (u_data \<lparr>u_data = replicate 32 0xFF, type = DAG_STATE, role = NEURON\<rparr>) = 32
   \<and> length (Cake_str \<lparr>u_data = replicate 32 0xFF, type = DAG_STATE, role = NEURON\<rparr>) = 44
   \<and> length (replicate 32 (0 :: byte)) = 32
   \<and> new_portal (replicate 32 0) None None
       = Inr \<lparr>u_data = replicate 32 0, type = PORTAL, role = SYNAPSE\<rparr>
   \<and> length (Cake_str \<lparr>u_data = replicate 32 0, type = PORTAL, role = SYNAPSE\<rparr>) = 44"
  using portal_cake_str_length[of "\<lparr>u_data = replicate 32 0xFF, type = DAG_STATE, role = NEURON\<rparr>"
      "replicate 32 0" None None "\<lparr>u_data = replicate 32 0, type = PORTAL, role = SYNAPSE\<rparr>"]
  by (simp add: is_portal_def is_vtree_def new_portal_def Cake_init_def Cake_of_parts_def
      check_key_length_def has_data_def assert_portal_def)

section \<open>Shard names\<close>

lemma lower_examples: "lower ''.5k'' = ''.5k''" "lower ''5BK'' = ''5bk''"
  by (simp_all add: lower_def lower_char_def)

lemma decode_shard_bad: "decode_shard ''.5k'' = Inl KeyError"
  by (simp add: decode_shard_def B36_decode_int_def decode_int_def alphabet36_def)

text \<open>
  C10 (\<open>is_it_shard\<close> is total). For every string, whatever the decoder does with it,
  \<open>is_it_shard\<close> returns a boolean and raises nothing: \<open>False\<close> for the empty string and for
  a string of more than 3 characters, and \<open>False\<close> whenever the decoder raises on the
  lower-cased string (a character outside the base-36 alphabet, for one).
\<close>

theorem is_it_shard_total:
  "(\<exists>b. is_it_shard decoder s max_num = Inr b)
   \<and> (s = [] \<or> length s > 3 \<longrightarrow> is_it_shard decoder s max_num = Inr False)
   \<and> (decoder (lower s) = Inl e \<longrightarrow> is_it_shard decoder s max_num = Inr False)"
  by (auto simp: is_it_shard_def split: sum.splits)

theorem is_it_shard_total_witness:
  "is_it_shard decode_shard '''' 8192 = Inr False
   \<and> length ''abcd'' > 3 \<and> is_it_shard decode_shard ''abcd'' 8192 = Inr False
   \<and> decode_shard (lower ''.5k'') = Inl KeyError
   \<and> is_it_shard decode_shard ''.5k'' 8192 = Inr False"
  using is_it_shard_total[of decode_shard "''''" 8192 KeyError]
    is_it_shard_total[of decode_shard "''abcd''" 8192 KeyError]
    is_it_shard_total[of decode_shard "''.5k''" 8192 KeyError]
  by (simp add: lower_examples decode_shard_bad)

section \<open>ContentAddress of a Cake\<close>

lemma shard_num_32: "length hb = 32 \<Longrightarrow> \<exists>n. shard_num hb MAX_NUM_OF_SHARDS = Inr n"
proof -
  assume "length hb = 32"
  then obtain b1 b2 rest where "hb = b1 # b2 # rest"
    by (cases hb; cases "tl hb") auto
  then show ?thesis by (simp add: shard_num_def MAX_NUM_OF_SHARDS_def)
qed

text \<open>
  C4, as the specification states it, promises a ContentAddress for an \<open>INLINE\<close> Cake, its hash
  being the SHA-256 digest of the payload. \<open>ContentAddress.__init__\<close> takes \<open>hash_bytes()\<close> of
  the Cake, and \<open>hash_bytes\<close> raises for every type that is not resolved: for the \<open>INLINE\<close>
  Cake of the one byte \<open>a\<close> the construction fails.
\<close>

theorem content_address_inline_counterexample:
  "ContentAddress_init (FromCake \<lparr>u_data = [0x61], type = INLINE, role = SYNAPSE\<rparr>)
     = Inl AssertionError"
  by (simp add: ContentAddress_init_def hash_bytes_def is_resolved_def)

text \<open>
  C4 (amended). A ContentAddress is derivable from every Cake of a resolved type (\<open>SHA256\<close>,
  \<open>EVENT\<close>, \<open>JSON_WRAP\<close>): construction succeeds and the 32-byte hash of the address is the
  32-byte data of the Cake, its id the base-36 form of that data. For a Cake of any other type,
  an \<open>INLINE\<close> Cake in particular, construction fails with an assertion error.
\<close>

theorem content_address_from_cake:
  "check_key_length c = Inr c \<Longrightarrow>
   (is_resolved (type c) \<longrightarrow>
      (\<exists>a. ContentAddress_init (FromCake c) = Inr a \<and> ca_hash_bytes a = u_data c
           \<and> length (ca_hash_bytes a) = 32 \<and> ca_id a = B36_encode (u_data c)))
   \<and> (\<not> is_resolved (type c) \<longrightarrow> ContentAddress_init (FromCake c) = Inl AssertionError)
   \<and> (type c = INLINE \<longrightarrow> ContentAddress_init (FromCake c) = Inl AssertionError)"
proof (intro conjI impI)
  assume wf: "check_key_length c = Inr c" and res: "is_resolved (type c)"
  from res have "type c \<noteq> INLINE" by (auto simp: is_resolved_def)
  with wf have len: "length (u_data c) = 32"
    by (auto simp: check_key_length_def has_data_def split: if_splits)
  from shard_num_32[OF len] obtain n where "shard_num (u_data c) MAX_NUM_OF_SHARDS = Inr n" ..
  with res len show "\<exists>a. ContentAddress_init (FromCake c) = Inr a \<and> ca_hash_bytes a = u_data c
           \<and> length (ca_hash_bytes a) = 32 \<and> ca_id a = B36_encode (u_data c)"
    by (simp add: ContentAddress_init_def hash_bytes_def)
next
  assume "\<not> is_resolved (type c)"
  then show "ContentAddress_init (FromCake c) = Inl AssertionError"
    by (simp add: ContentAddress_init_def hash_bytes_def)
next
  assume "type c = INLINE"
  then show "ContentAddress_init (FromCake c) = Inl AssertionError"
    by (simp add: ContentAddress_init_def hash_bytes_def is_resolved_def)
qed

theorem content_address_from_cake_witness:
  "check_key_length \<lparr>u_data = replicate 32 7, type = SHA256, role = SYNAPSE\<rparr>
     = Inr \<lparr>u_data = replicate 32 7, type = SHA256, role = SYNAPSE\<rparr>
   \<and> is_resolved (type \<lparr>u_data = replicate 32 7, type = SHA256, role = SYNAPSE\<rparr>)
   \<and> (\<exists>a. ContentAddress_init (FromCake \<lparr>u_data = replicate 32 7, type = SHA256, role = SYNAPSE\<rparr>)
            = Inr a \<and> ca_hash_bytes a = replicate 32 7)
   \<and> check_key_length \<lparr>u_data = [0x61, 0x62], type = INLINE, role = SYNAPSE\<rparr>
     = Inr \<lparr>u_data = [0x61, 0x62], type = INLINE, role = SYNAPSE\<rparr>
   \<and> \<not> is_resolved (type \<lparr>u_data = [0x61, 0x62], type = INLINE, role = SYNAPSE\<rparr>)
   \<and> ContentAddress_init (FromCake \<lparr>u_data = [0x61, 0x62], type = INLINE, role = SYNAPSE\<rparr>)
     = Inl AssertionError"
  using content_address_from_cake[of "\<lparr>u_data = replicate 32 7, type = SHA256, role = SYNAPSE\<rparr>"]
    content_address_from_cake[of "\<lparr>u_data = [0x61, 0x62], type = INLINE, role = SYNAPSE\<rparr>"]
  by (auto simp: check_key_length_def has_data_def is_resolved_def)

section \<open>Portals\<close>

lemma transform_portal_checks_source:
  "\<not> is_portal (type c) \<Longrightarrow> transform_portal c r t = Inl AssertionError"
  by (simp add: transform_portal_def assert_portal_def)

lemma transform_portal_between_portals:
  assumes "is_portal (type c)" "length (u_data c) = 32" "is_portal t"
  shows "transform_portal c (Some r) (Some t) = Inr \<lparr>u_data = u_data c, type = t, role = r\<rparr>"
proof -
  from assms(3) have "t \<noteq> INLINE" by (auto simp: is_portal_def is_vtree_def)
  with assms(1,2) show ?thesis
    by (cases c) (auto simp: transform_portal_def assert_portal_def Cake_init_def Cake_of_parts_def
        check_key_length_def has_data_def)
qed

lemma new_portal_checks_target:
  "\<not> is_portal t \<Longrightarrow> new_portal urandom r (Some t) = Inl AssertionError"
  by (auto simp: new_portal_def Cake_init_def Cake_of_parts_def check_key_length_def
      assert_portal_def split: sum.splits option.splits)

text \<open>
  C5 says that \<open>transform_portal\<close> fails when the requested target type is not a portal type.
  The code asserts that the current type is a portal and never looks at the target: from a
  \<open>PORTAL\<close> Cake and the target type \<open>SHA256\<close> it returns a Cake of type \<open>SHA256\<close> that carries
  the 32 random bytes as if they were a digest. (\<open>new_portal\<close>, next to it, does assert the type
  it is given: lemma \<open>new_portal_checks_target\<close>.)
\<close>

theorem transform_portal_to_non_portal:
  "transform_portal \<lparr>u_data = replicate 32 1, type = PORTAL, role = SYNAPSE\<rparr> None (Some SHA256)
     = Inr \<lparr>u_data = replicate 32 1, type = SHA256, role = SYNAPSE\<rparr>"
  by (simp add: transform_portal_def assert_portal_def is_portal_def is_vtree_def Cake_init_def
      Cake_of_parts_def check_key_length_def has_data_def)

section \<open>Portal resolution is bounded\<close>

lemma resolve_loop_immutable:
  "is_immutable cake \<Longrightarrow> resolve_loop lookup cake_stack cake n = (Inr (cake_stack @ [cake]), n)"
  by (subst resolve_loop.simps) simp

lemma resolve_loop_guard:
  "\<not> is_immutable cake \<Longrightarrow> cake \<in> set cake_stack \<or> 10 \<le> length cake_stack \<Longrightarrow>
   resolve_loop lookup cake_stack cake n = (Inl AssertionError, n)"
  by (subst resolve_loop.simps) auto

lemma resolve_loop_lookup_fails:
  "\<not> is_immutable cake \<Longrightarrow> cake \<notin> set cake_stack \<Longrightarrow> length cake_stack < 10 \<Longrightarrow>
   lookup cake = Inl e \<Longrightarrow> resolve_loop lookup cake_stack cake n = (Inl e, Suc n)"
  by (subst resolve_loop.simps) simp

lemma resolve_loop_step:
  "\<not> is_immutable cake \<Longrightarrow> cake \<notin> set cake_stack \<Longrightarrow> length cake_stack < 10 \<Longrightarrow>
   lookup cake = Inr next_cake \<Longrightarrow>
   resolve_loop lookup cake_stack cake n
     = resolve_loop lookup (cake_stack @ [cake]) next_cake (Suc n)"
  by (subst resolve_loop.simps) simp

lemma resolve_loop_lookups:
  "length cake_stack \<le> 10 \<Longrightarrow>
   snd (resolve_loop lookup cake_stack cake n) \<le> n + (10 - length cake_stack)"
proof (induction lookup cake_stack cake n rule: resolve_loop.induct)
  case (1 lookup cake_stack cake n)
  show ?case
  proof (cases "is_immutable cake")
    case True
    then show ?thesis by (simp add: resolve_loop_immutable)
  next
    case imm: False
    show ?thesis
    proof (cases "cake \<in> set cake_stack \<or> 10 \<le> length cake_stack")
      case True
      with imm show ?thesis by (simp add: resolve_loop_guard)
    next
      case False
      then have g: "cake \<notin> set cake_stack" "length cake_stack < 10" by auto
      show ?thesis
      proof (cases "lookup cake")
        case (Inl e)
        with imm g show ?thesis by (simp add: resolve_loop_lookup_fails)
      next
        case (Inr next_cake)
        from g have cond: "\<not> (cake \<in> set cake_stack \<or> 10 < length (cake_stack @ [cake]))" by simp
        from g have "length (cake_stack @ [cake]) \<le> 10" by simp
        from "1.IH"[OF imm cond Inr this]
        have "snd (resolve_loop lookup (cake_stack @ [cake]) next_cake (Suc n))
            \<le> Suc n + (10 - length (cake_stack @ [cake]))" .
        with imm g Inr show ?thesis by (simp add: resolve_loop_step)
      qed
    qed
  qed
qed

lemma linked_snoc:
  "linked lookup (xs @ [c]) \<Longrightarrow> lookup c = Inr d \<Longrightarrow> linked lookup ((xs @ [c]) @ [d])"
  by (induction lookup xs rule: linked.induct) auto

lemma resolve_loop_result:
  "resolve_loop lookup cake_stack cake n = (Inr stack, m) \<Longrightarrow>
   length cake_stack \<le> 10 \<Longrightarrow> distinct cake_stack \<Longrightarrow>
   \<forall>c \<in> set cake_stack. \<not> is_immutable c \<Longrightarrow> linked lookup (cake_stack @ [cake]) \<Longrightarrow>
   take (length cake_stack) stack = cake_stack \<and> length cake_stack < length stack
   \<and> stack ! length cake_stack = cake
   \<and> is_immutable (last stack) \<and> (\<forall>c \<in> set (butlast stack). \<not> is_immutable c)
   \<and> linked lookup stack \<and> distinct stack \<and> length stack \<le> 11
   \<and> m + length cake_stack + 1 = n + length stack"
proof (induction lookup cake_stack cake n rule: resolve_loop.induct)
  case (1 lookup cake_stack cake n)
  show ?case
  proof (cases "is_immutable cake")
    case True
    with "1.prems"(1) have st: "stack = cake_stack @ [cake]" "m = n"
      by (simp_all add: resolve_loop_immutable)
    from True "1.prems"(4) have "cake \<notin> set cake_stack" by auto
    with st True "1.prems" show ?thesis by simp
  next
    case imm: False
    show ?thesis
    proof (cases "cake \<in> set cake_stack \<or> 10 \<le> length cake_stack")
      case True
      with imm "1.prems"(1) show ?thesis by (simp add: resolve_loop_guard)
    next
      case False
      then have g: "cake \<notin> set cake_stack" "length cake_stack < 10" by auto
      show ?thesis
      proof (cases "lookup cake")
        case (Inl e)
        with imm g "1.prems"(1) show ?thesis by (simp add: resolve_loop_lookup_fails)
      next
        case (Inr next_cake)
        from g have cond: "\<not> (cake \<in> set cake_stack \<or> 10 < length (cake_stack @ [cake]))" by simp
        from imm g Inr "1.prems"(1)
        have run: "resolve_loop lookup (cake_stack @ [cake]) next_cake (Suc n) = (Inr stack, m)"
          by (simp add: resolve_loop_step)
        have p1: "length (cake_stack @ [cake]) \<le> 10" using g by simp
        have p2: "distinct (cake_stack @ [cake])" using g "1.prems"(3) by simp
        have p3: "\<forall>c \<in> set (cake_stack @ [cake]). \<not> is_immutable c"
          using imm "1.prems"(4) by simp
        have p4: "linked lookup ((cake_stack @ [cake]) @ [next_cake])"
          using "1.prems"(5) Inr by (rule linked_snoc)
        from "1.IH"[OF imm cond Inr run p1 p2 p3 p4]
        have ih: "take (length (cake_stack @ [cake])) stack = cake_stack @ [cake]"
          "length (cake_stack @ [cake]) < length stack"
          "is_immutable (last stack)" "\<forall>c \<in> set (butlast stack). \<not> is_immutable c"
          "linked lookup stack" "distinct stack" "length stack \<le> 11"
          "m + length (cake_stack @ [cake]) + 1 = Suc n + length stack"
          by simp_all
        from ih(1) have "take (length cake_stack) (take (length (cake_stack @ [cake])) stack)
            = take (length cake_stack) (cake_stack @ [cake])" by simp
        then have t: "take (length cake_stack) stack = cake_stack" by (simp add: min_def)
        from ih(1,2) have "stack ! length cake_stack = (cake_stack @ [cake]) ! length cake_stack"
          by (metis length_append_singleton lessI nth_take)
        then have c: "stack ! length cake_stack = cake" by simp
        from t c ih show ?thesis by simp
      qed
    qed
  qed
qed

lemma resolve_loop_follow:
  "\<forall>x \<in> set (y # ys). \<not> is_immutable x \<Longrightarrow> linked lookup (y # ys) \<Longrightarrow>
   (\<exists>k. resolve_loop lookup cake_stack y n = (Inl AssertionError, k))
   \<or> resolve_loop lookup cake_stack y n
       = resolve_loop lookup (cake_stack @ butlast (y # ys)) (last (y # ys)) (n + length ys)"
proof (induction ys arbitrary: y cake_stack n)
  case Nil
  then show ?case by simp
next
  case (Cons z zs)
  from Cons.prems have imm: "\<not> is_immutable y" and lk: "lookup y = Inr z" by simp_all
  show ?case
  proof (cases "y \<in> set cake_stack \<or> 10 \<le> length cake_stack")
    case True
    with imm show ?thesis by (simp add: resolve_loop_guard)
  next
    case False
    then have g: "y \<notin> set cake_stack" "length cake_stack < 10" by auto
    from imm g lk have step: "resolve_loop lookup cake_stack y n
        = resolve_loop lookup (cake_stack @ [y]) z (Suc n)"
      by (rule resolve_loop_step)
    from Cons.prems have "\<forall>x \<in> set (z # zs). \<not> is_immutable x" "linked lookup (z # zs)"
      by simp_all
    from Cons.IH[OF this, of "cake_stack @ [y]" "Suc n"]
    have "(\<exists>k. resolve_loop lookup (cake_stack @ [y]) z (Suc n) = (Inl AssertionError, k))
      \<or> resolve_loop lookup (cake_stack @ [y]) z (Suc n)
        = resolve_loop lookup (cake_stack @ butlast (y # z # zs)) (last (y # z # zs))
            (n + length (z # zs))"
      by simp
    then show ?thesis by (simp only: step)
  qed
qed

lemma resolve_loop_success:
  "linked lookup (y # ys) \<Longrightarrow> \<forall>x \<in> set (butlast (y # ys)). \<not> is_immutable x \<Longrightarrow>
   is_immutable (last (y # ys)) \<Longrightarrow> distinct (cake_stack @ y # ys) \<Longrightarrow>
   length (cake_stack @ y # ys) \<le> 11 \<Longrightarrow>
   resolve_loop lookup cake_stack y n = (Inr (cake_stack @ y # ys), n + length ys)"
proof (induction ys arbitrary: y cake_stack n)
  case Nil
  then have "is_immutable y" by simp
  then show ?case by (simp add: resolve_loop_immutable)
next
  case (Cons z zs)
  from Cons.prems(2) have imm: "\<not> is_immutable y" by simp
  from Cons.prems(1) have lk: "lookup y = Inr z" by simp
  from Cons.prems(4) have fresh: "y \<notin> set cake_stack" by auto
  from Cons.prems(5) have short: "length cake_stack < 10" by simp
  from imm fresh short lk have step: "resolve_loop lookup cake_stack y n
      = resolve_loop lookup (cake_stack @ [y]) z (Suc n)"
    by (rule resolve_loop_step)
  have l: "linked lookup (z # zs)" using Cons.prems(1) by simp
  have b: "\<forall>x \<in> set (butlast (z # zs)). \<not> is_immutable x" using Cons.prems(2) by simp
  have i: "is_immutable (last (z # zs))" using Cons.prems(3) by simp
  have d: "distinct ((cake_stack @ [y]) @ z # zs)" using Cons.prems(4) by simp
  have n: "length ((cake_stack @ [y]) @ z # zs) \<le> 11" using Cons.prems(5) by simp
  from Cons.IH[OF l b i d n, of "Suc n"] show ?case by (simp add: step)
qed

text \<open>
  C6 (resolution terminates). \<open>resolve_loop\<close> is a total function (its termination is proved
  where it is defined), so for every lookup relation the resolution of a Cake returns or
  raises, and it makes at most 10 lookups. It returns exactly the chains that the claim
  describes. If following the lookup from the Cake leads, through at most 10 distinct portals,
  to an immutable Cake, the resolution returns that chain, which ends at the first immutable
  Cake reached, after one lookup per hop. Whatever it returns is such a chain: it starts at the
  Cake, follows the lookup, is free of repetitions, has at most 11 Cakes (10 hops) and only
  its last Cake is immutable. If following the lookup leads through portals only and comes to
  a Cake seen before, or to an eleventh portal, the resolution fails with an assertion error.
\<close>

theorem resolve_cake_stack_bounded:
  "snd (resolve_cake_stack lookup cake) \<le> 10
   \<and> (fst (resolve_cake_stack lookup cake) = Inr stack \<longrightarrow>
        stack \<noteq> [] \<and> hd stack = cake \<and> is_immutable (last stack)
        \<and> (\<forall>c \<in> set (butlast stack). \<not> is_immutable c)
        \<and> linked lookup stack \<and> distinct stack \<and> length stack \<le> 11
        \<and> Suc (snd (resolve_cake_stack lookup cake)) = length stack)
   \<and> (chain \<noteq> [] \<and> hd chain = cake \<and> linked lookup chain
        \<and> (\<forall>c \<in> set chain. \<not> is_immutable c)
        \<and> (last chain \<in> set (butlast chain) \<or> length chain > 10) \<longrightarrow>
        fst (resolve_cake_stack lookup cake) = Inl AssertionError)
   \<and> (path \<noteq> [] \<and> hd path = cake \<and> linked lookup path
        \<and> (\<forall>c \<in> set (butlast path). \<not> is_immutable c) \<and> is_immutable (last path)
        \<and> distinct path \<and> length path \<le> 11 \<longrightarrow>
        resolve_cake_stack lookup cake = (Inr path, length path - 1))"
proof -
  have bound: "snd (resolve_cake_stack lookup cake) \<le> 10"
    using resolve_loop_lookups[of "[]" lookup cake 0] by (simp add: resolve_cake_stack_def)
  have returned: "fst (resolve_cake_stack lookup cake) = Inr stack \<longrightarrow>
        stack \<noteq> [] \<and> hd stack = cake \<and> is_immutable (last stack)
        \<and> (\<forall>c \<in> set (butlast stack). \<not> is_immutable c)
        \<and> linked lookup stack \<and> distinct stack \<and> length stack \<le> 11
        \<and> Suc (snd (resolve_cake_stack lookup cake)) = length stack"
  proof
  assume r: "fst (resolve_cake_stack lookup cake) = Inr stack"
  obtain m where run: "resolve_loop lookup [] cake 0 = (Inr stack, m)"
    using r by (cases "resolve_loop lookup [] cake 0") (simp add: resolve_cake_stack_def)
  from resolve_loop_result[OF run] have res: "0 < length stack" "stack ! 0 = cake"
    "is_immutable (last stack)" "\<forall>c \<in> set (butlast stack). \<not> is_immutable c"
    "linked lookup stack" "distinct stack" "length stack \<le> 11" "m + 1 = length stack"
    by simp_all
  from res(1) have ne: "stack \<noteq> []" by auto
  with res(2) have "hd stack = cake" by (simp add: hd_conv_nth)
  moreover from run res(8) have "Suc (snd (resolve_cake_stack lookup cake)) = length stack"
    by (simp add: resolve_cake_stack_def)
  ultimately show "stack \<noteq> [] \<and> hd stack = cake \<and> is_immutable (last stack)
        \<and> (\<forall>c \<in> set (butlast stack). \<not> is_immutable c)
        \<and> linked lookup stack \<and> distinct stack \<and> length stack \<le> 11
        \<and> Suc (snd (resolve_cake_stack lookup cake)) = length stack"
    using ne res by simp
  qed
  have failing: "chain \<noteq> [] \<and> hd chain = cake \<and> linked lookup chain
        \<and> (\<forall>c \<in> set chain. \<not> is_immutable c)
        \<and> (last chain \<in> set (butlast chain) \<or> length chain > 10) \<longrightarrow>
        fst (resolve_cake_stack lookup cake) = Inl AssertionError"
  proof
  assume a: "chain \<noteq> [] \<and> hd chain = cake \<and> linked lookup chain
        \<and> (\<forall>c \<in> set chain. \<not> is_immutable c)
        \<and> (last chain \<in> set (butlast chain) \<or> length chain > 10)"
  then obtain ys where ch: "chain = cake # ys" by (cases chain) auto
  from a ch have "\<forall>x \<in> set (cake # ys). \<not> is_immutable x" "linked lookup (cake # ys)" by simp_all
  then have "(\<exists>k. resolve_loop lookup [] cake 0 = (Inl AssertionError, k))
      \<or> resolve_loop lookup [] cake 0
        = resolve_loop lookup ([] @ butlast (cake # ys)) (last (cake # ys)) (0 + length ys)"
    by (rule resolve_loop_follow)
  then consider k where "resolve_loop lookup [] cake 0 = (Inl AssertionError, k)"
    | "resolve_loop lookup [] cake 0
         = resolve_loop lookup (butlast chain) (last chain) (length ys)"
    unfolding ch by (elim disjE exE) simp_all
  then show "fst (resolve_cake_stack lookup cake) = Inl AssertionError"
  proof cases
    case 1
    then show ?thesis by (simp add: resolve_cake_stack_def)
  next
    case 2
    from a have "\<not> is_immutable (last chain)" by simp
    moreover from a have "last chain \<in> set (butlast chain) \<or> 10 \<le> length (butlast chain)"
      by auto
    ultimately have "resolve_loop lookup (butlast chain) (last chain) (length ys)
        = (Inl AssertionError, length ys)" by (rule resolve_loop_guard)
    with 2 show ?thesis by (simp add: resolve_cake_stack_def)
  qed
  qed
  have succeeding: "path \<noteq> [] \<and> hd path = cake \<and> linked lookup path
        \<and> (\<forall>c \<in> set (butlast path). \<not> is_immutable c) \<and> is_immutable (last path)
        \<and> distinct path \<and> length path \<le> 11 \<longrightarrow>
        resolve_cake_stack lookup cake = (Inr path, length path - 1)"
  proof
    assume a: "path \<noteq> [] \<and> hd path = cake \<and> linked lookup path
        \<and> (\<forall>c \<in> set (butlast path). \<not> is_immutable c) \<and> is_immutable (last path)
        \<and> distinct path \<and> length path \<le> 11"
    then obtain ys where p: "path = cake # ys" by (cases path) auto
    have "resolve_loop lookup [] cake 0 = (Inr ([] @ cake # ys), 0 + length ys)"
      by (rule resolve_loop_success) (use a p in simp_all)
    with p show "resolve_cake_stack lookup cake = (Inr path, length path - 1)"
      by (simp add: resolve_cake_stack_def)
  qed
  show ?thesis by (rule conjI[OF bound conjI[OF returned conjI[OF failing succeeding]]])
qed


theorem resolve_cake_stack_bounded_witness:
  "linked (\<lambda>c. if hd (u_data c) < 9 then Inr (c\<lparr>u_data := replicate 32 (hd (u_data c) + 1)\<rparr>)
                 else Inr (c\<lparr>type := SHA256\<rparr>))
     (map (\<lambda>i. \<lparr>u_data = replicate 32 i, type = PORTAL, role = SYNAPSE\<rparr>)
        [0, 1, 2, 3, 4, 5, 6, 7, 8, 9]
      @ [\<lparr>u_data = replicate 32 9, type = SHA256, role = SYNAPSE\<rparr>])
   \<and> is_immutable \<lparr>u_data = replicate 32 9, type = SHA256, role = SYNAPSE\<rparr>
   \<and> \<not> is_immutable \<lparr>u_data = replicate 32 9, type = PORTAL, role = SYNAPSE\<rparr>
   \<and> resolve_cake_stack
        (\<lambda>c. if hd (u_data c) < 9 then Inr (c\<lparr>u_data := replicate 32 (hd (u_data c) + 1)\<rparr>)
             else Inr (c\<lparr>type := SHA256\<rparr>))
        \<lparr>u_data = replicate 32 0, type = PORTAL, role = SYNAPSE\<rparr>
     = (Inr (map (\<lambda>i. \<lparr>u_data = replicate 32 i, type = PORTAL, role = SYNAPSE\<rparr>)
               [0, 1, 2, 3, 4, 5, 6, 7, 8, 9]
             @ [\<lparr>u_data = replicate 32 9, type = SHA256, role = SYNAPSE\<rparr>]), 10)
   \<and> linked (\<lambda>c. Inr (c\<lparr>u_data := replicate 32 (hd (u_data c) + 1)\<rparr>))
       (map (\<lambda>i. \<lparr>u_data = replicate 32 i, type = PORTAL, role = SYNAPSE\<rparr>)
          [0, 1, 2, 3, 4, 5, 6, 7, 8, 9, 10])
   \<and> fst (resolve_cake_stack (\<lambda>c. Inr (c\<lparr>u_data := replicate 32 (hd (u_data c) + 1)\<rparr>))
          \<lparr>u_data = replicate 32 0, type = PORTAL, role = SYNAPSE\<rparr>) = Inl AssertionError
   \<and> linked (\<lambda>c. Inr c) [\<lparr>u_data = replicate 32 1, type = PORTAL, role = SYNAPSE\<rparr>,
                           \<lparr>u_data = replicate 32 1, type = PORTAL, role = SYNAPSE\<rparr>]
   \<and> fst (resolve_cake_stack (\<lambda>c. Inr c)
          \<lparr>u_data = replicate 32 1, type = PORTAL, role = SYNAPSE\<rparr>) = Inl AssertionError"
proof -
  let ?P = "\<lambda>i :: byte. \<lparr>u_data = replicate 32 i, type = PORTAL, role = SYNAPSE\<rparr>"
  let ?q = "\<lparr>u_data = replicate 32 (9 :: byte), type = SHA256, role = SYNAPSE\<rparr>"
  let ?f = "\<lambda>c. if hd (u_data c) < 9 then Inr (c\<lparr>u_data := replicate 32 (hd (u_data c) + 1)\<rparr>)
                 else Inr (c\<lparr>type := SHA256\<rparr>)"
  let ?g = "\<lambda>c :: Cake. Inr (c\<lparr>u_data := replicate 32 (hd (u_data c) + 1)\<rparr>) :: error + Cake"
  let ?path = "map ?P [0, 1, 2, 3, 4, 5, 6, 7, 8, 9] @ [?q]"
  let ?long = "map ?P [0, 1, 2, 3, 4, 5, 6, 7, 8, 9, 10]"
  have imm: "\<And>i. \<not> is_immutable (?P i)" "is_immutable ?q"
    by (simp_all add: is_immutable_def has_data_def is_resolved_def)
  have lp: "linked ?f ?path" by simp
  have ll: "linked ?g ?long" by simp
  have dp: "distinct ?path" by simp
  have success: "resolve_cake_stack ?f (?P 0) = (Inr ?path, 10)"
    using resolve_cake_stack_bounded[of ?f "?P 0" "[]" "[]" ?path] lp dp imm by simp
  have too_long: "fst (resolve_cake_stack ?g (?P 0)) = Inl AssertionError"
    using resolve_cake_stack_bounded[of ?g "?P 0" "[]" ?long "[]"] ll imm by simp
  have repeated: "fst (resolve_cake_stack (\<lambda>c. Inr c) (?P 1)) = Inl AssertionError"
    using resolve_cake_stack_bounded[of "\<lambda>c. Inr c" "?P 1" "[]" "[?P 1, ?P 1]" "[]"] imm by simp
  have lr: "linked (\<lambda>c. Inr c) [?P 1, ?P 1]" by simp
  from lp imm(2) imm(1)[of 9] success ll too_long lr repeated show ?thesis by (intro conjI)
qed

section \<open>Parsing a SaltedSha\<close>

text \<open>
  C9 says that parsing fails whenever the decoded payload is not exactly 24 bytes long.
  \<open>SaltedSha.__init__\<close> checks the prefix and nothing else: the text \<open>{SSHA}YWJj\<close>, whose
  payload is the 3 bytes \<open>abc\<close>, parses into a 3-byte digest and an empty salt.
\<close>

theorem SaltedSha_short_payload_counterexample:
  "SaltedSha_init b64decode_canonical ''{SSHA}YWJj'' = Inr \<lparr>ssha_digest = [0x61, 0x62, 0x63], salt = []\<rparr>"
  by (simp add: SaltedSha_init_def SSHA_MARK_def b64_alphabet_def b64_group_def)

text \<open>
  C9 (amended). Parsing a SaltedSha from a string fails whenever the string does not start
  with the exact \<open>{SSHA}\<close> prefix, and whenever the base64 decoder raises on the rest. When the
  prefix is there and the rest decodes, parsing succeeds whatever the length of the payload:
  the digest is its first 20 bytes and the salt is what follows, so that a payload of 24 bytes
  gives a 20-byte digest and a 4-byte salt.
\<close>

theorem SaltedSha_parse:
  "(take (length SSHA_MARK) s \<noteq> SSHA_MARK \<longrightarrow> SaltedSha_init decoder s = Inl AssertionError)
   \<and> (take (length SSHA_MARK) s = SSHA_MARK \<and> decoder (drop (length SSHA_MARK) s) = Inl e \<longrightarrow>
        SaltedSha_init decoder s = Inl e)
   \<and> (take (length SSHA_MARK) s = SSHA_MARK \<and> decoder (drop (length SSHA_MARK) s) = Inr payload \<longrightarrow>
        SaltedSha_init decoder s
          = Inr \<lparr>ssha_digest = take 20 payload, salt = drop 20 payload\<rparr>)
   \<and> (take (length SSHA_MARK) s = SSHA_MARK \<and> decoder (drop (length SSHA_MARK) s) = Inr payload
        \<and> length payload = 24 \<longrightarrow>
        (\<exists>v. SaltedSha_init decoder s = Inr v \<and> length (ssha_digest v) = 20
             \<and> length (salt v) = 4 \<and> ssha_digest v @ salt v = payload))"
  by (auto simp: SaltedSha_init_def)

theorem SaltedSha_parse_witness:
  "take (length SSHA_MARK) ''{ssha}YWJj'' \<noteq> SSHA_MARK
   \<and> SaltedSha_init b64decode_canonical ''{ssha}YWJj'' = Inl AssertionError
   \<and> take (length SSHA_MARK) ''{SSHA}Y'' = SSHA_MARK
   \<and> b64decode_canonical (drop (length SSHA_MARK) ''{SSHA}Y'') = Inl LibraryError
   \<and> SaltedSha_init b64decode_canonical ''{SSHA}Y'' = Inl LibraryError
   \<and> take (length SSHA_MARK) ''{SSHA}YWI='' = SSHA_MARK
   \<and> b64decode_canonical (drop (length SSHA_MARK) ''{SSHA}YWI='') = Inr [0x61, 0x62]
   \<and> SaltedSha_init b64decode_canonical ''{SSHA}YWI='' = Inr \<lparr>ssha_digest = [0x61, 0x62], salt = []\<rparr>
   \<and> take (length SSHA_MARK) ''{SSHA}5wRHUQxypw7C4AVd4yZRW/8pXy2Gwvh/'' = SSHA_MARK
   \<and> b64decode_canonical (drop (length SSHA_MARK) ''{SSHA}5wRHUQxypw7C4AVd4yZRW/8pXy2Gwvh/'')
       = Inr [0xE7, 0x04, 0x47, 0x51, 0x0C, 0x72, 0xA7, 0x0E, 0xC2, 0xE0, 0x05, 0x5D,
              0xE3, 0x26, 0x51, 0x5B, 0xFF, 0x29, 0x5F, 0x2D, 0x86, 0xC2, 0xF8, 0x7F]
   \<and> (\<exists>v. SaltedSha_init b64decode_canonical ''{SSHA}5wRHUQxypw7C4AVd4yZRW/8pXy2Gwvh/'' = Inr v
          \<and> length (ssha_digest v) = 20 \<and> length (salt v) = 4)"
proof -
  have d: "b64decode_canonical (drop (length SSHA_MARK) ''{SSHA}5wRHUQxypw7C4AVd4yZRW/8pXy2Gwvh/'')
       = Inr [0xE7, 0x04, 0x47, 0x51, 0x0C, 0x72, 0xA7, 0x0E, 0xC2, 0xE0, 0x05, 0x5D,
              0xE3, 0x26, 0x51, 0x5B, 0xFF, 0x29, 0x5F, 0x2D, 0x86, 0xC2, 0xF8, 0x7F]"
    by (simp add: SSHA_MARK_def b64_alphabet_def b64_group_def)
  have p: "take (length SSHA_MARK) ''{SSHA}5wRHUQxypw7C4AVd4yZRW/8pXy2Gwvh/'' = SSHA_MARK"
    by (simp add: SSHA_MARK_def)
  from SaltedSha_parse[of "''{SSHA}5wRHUQxypw7C4AVd4yZRW/8pXy2Gwvh/''" b64decode_canonical LibraryError
      "[0xE7, 0x04, 0x47, 0x51, 0x0C, 0x72, 0xA7, 0x0E, 0xC2, 0xE0, 0x05, 0x5D,
        0xE3, 0x26, 0x51, 0x5B, 0xFF, 0x29, 0x5F, 0x2D, 0x86, 0xC2, 0xF8, 0x7F]"] d p
  have full: "\<exists>v. SaltedSha_init b64decode_canonical ''{SSHA}5wRHUQxypw7C4AVd4yZRW/8pXy2Gwvh/'' = Inr v
          \<and> length (ssha_digest v) = 20 \<and> length (salt v) = 4"
    by simp
  have rest: "take (length SSHA_MARK) ''{ssha}YWJj'' \<noteq> SSHA_MARK
   \<and> SaltedSha_init b64decode_canonical ''{ssha}YWJj'' = Inl AssertionError
   \<and> take (length SSHA_MARK) ''{SSHA}Y'' = SSHA_MARK
   \<and> b64decode_canonical (drop (length SSHA_MARK) ''{SSHA}Y'') = Inl LibraryError
   \<and> SaltedSha_init b64decode_canonical ''{SSHA}Y'' = Inl LibraryError
   \<and> take (length SSHA_MARK) ''{SSHA}YWI='' = SSHA_MARK
   \<and> b64decode_canonical (drop (length SSHA_MARK) ''{SSHA}YWI='') = Inr [0x61, 0x62]
   \<and> SaltedSha_init b64decode_canonical ''{SSHA}YWI='' = Inr \<lparr>ssha_digest = [0x61, 0x62], salt = []\<rparr>"
    using SaltedSha_parse[of "''{ssha}YWJj''" b64decode_canonical LibraryError "[]"]
      SaltedSha_parse[of "''{SSHA}Y''" b64decode_canonical LibraryError "[]"]
      SaltedSha_parse[of "''{SSHA}YWI=''" b64decode_canonical LibraryError "[0x61, 0x62]"]
    by (auto simp: SSHA_MARK_def b64_alphabet_def b64_group_def)
  from rest p d full show ?thesis by (intro conjI) simp_all
qed

section \<open>Merging racks\<close>

lemma contains_map_of: "contains store k \<longleftrightarrow> map_of store k \<noteq> None"
  by (simp add: contains_def map_of_eq_None_iff)

lemma is_neuron_neuron_like:
  "map_of store k = Some v \<Longrightarrow> is_neuron store k = Inr (neuron_like store k)"
  by (cases v) (simp_all add: is_neuron_def getitem_def neuron_like_def)

lemma merge_key_table:
  assumes "contains self k \<or> contains previous k"
  shows "merge_key self previous k = Inr (merge_table self previous k)"
proof (cases "map_of self k")
  case None
  with assms have "map_of previous k \<noteq> None" by (simp add: contains_map_of)
  with None show ?thesis by (simp add: merge_key_def merge_table_def contains_map_of)
next
  case s: (Some v)
  show ?thesis
  proof (cases "map_of previous k")
    case None
    with s show ?thesis
      by (simp add: merge_key_def merge_table_def contains_map_of getitem_def
          is_neuron_neuron_like[OF s])
  next
    case p: (Some prev_v)
    show ?thesis
      by (simp add: merge_key_def merge_table_def contains_map_of getitem_def s p
          is_neuron_neuron_like[OF s] is_neuron_neuron_like[OF p])
  qed
qed

lemma merge_keys_table:
  "\<forall>k \<in> set ks. contains self k \<or> contains previous k \<Longrightarrow>
   merge_keys self previous ks = Inr (concat (map (merge_table self previous) ks))"
  by (induction ks) (simp_all add: merge_key_table)

lemma merge_names:
  "sort (remdups (keys self @ keys previous))
     = sorted_list_of_set (set (map fst self) \<union> set (map fst previous))"
proof -
  have "set (keys self @ keys previous) = set (map fst self) \<union> set (map fst previous)"
    by (simp add: keys_def)
  then show ?thesis by (metis sorted_list_of_set_sort_remdups)
qed

lemma merge_table_names: "p \<in> set (merge_table new prev k) \<Longrightarrow> fst (snd p) = k"
  by (auto simp: merge_table_def split: if_splits)

lemma sorted_concat_names:
  "sorted ks \<Longrightarrow> \<forall>k. \<forall>p \<in> set (f k). name p = k \<Longrightarrow>
   sorted (map name (concat (map f ks)))"
proof (induction ks)
  case Nil
  then show ?case by simp
next
  case (Cons k ks)
  have here: "\<forall>x \<in> set (map name (f k)). x = k" using Cons.prems(2) by auto
  then have s1: "sorted (map name (f k))" by (simp add: sorted_wrt_iff_nth_less)
  have later: "\<forall>y \<in> set (map name (concat (map f ks))). k \<le> y"
    using Cons.prems by auto
  from Cons have s2: "sorted (map name (concat (map f ks)))" by simp
  from s1 s2 here later show ?case by (auto simp: sorted_append)
qed

text \<open>
  C3 (merge follows the table). For every pair of racks \<open>new\<close> and \<open>prev\<close>, \<open>new.merge(prev)\<close>
  raises nothing and yields, for the names of the union of both key sets taken in strictly
  ascending order, the patches that the six-case table of the specification gives for each
  name (\<open>merge_table\<close>): delete for a name only in \<open>prev\<close>; update for a name only in \<open>new\<close>;
  nothing when the values are equal; nothing when they differ and both sides are neuron-like;
  update when they differ and neuron-ness matches; delete and then update when they differ and
  neuron-ness differs. The names of the patches emitted are in ascending order.
\<close>

theorem merge_follows_table:
  "merge new prev
     = Inr (concat (map (merge_table new prev)
              (sorted_list_of_set (set (map fst new) \<union> set (map fst prev)))))
   \<and> sorted_wrt (<) (sorted_list_of_set (set (map fst new) \<union> set (map fst prev)))
   \<and> set (sorted_list_of_set (set (map fst new) \<union> set (map fst prev)))
       = set (map fst new) \<union> set (map fst prev)
   \<and> sorted (map (\<lambda>p. fst (snd p))
        (concat (map (merge_table new prev)
           (sorted_list_of_set (set (map fst new) \<union> set (map fst prev))))))"
proof -
  let ?ks = "sorted_list_of_set (set (map fst new) \<union> set (map fst prev))"
  have fin: "finite (set (map fst new) \<union> set (map fst prev))" by simp
  have set_ks: "set ?ks = set (map fst new) \<union> set (map fst prev)"
    using fin by (rule set_sorted_list_of_set)
  have strict: "sorted_wrt (<) ?ks" by (rule strict_sorted_list_of_set)
  have "\<forall>k \<in> set ?ks. contains new k \<or> contains prev k"
    unfolding set_ks by (auto simp: contains_def)
  then have "merge_keys new prev ?ks = Inr (concat (map (merge_table new prev) ?ks))"
    by (rule merge_keys_table)
  then have m: "merge new prev = Inr (concat (map (merge_table new prev) ?ks))"
    by (simp only: merge_def merge_names)
  have "sorted ?ks" by (rule sorted_sorted_list_of_set)
  then have names: "sorted (map (\<lambda>p. fst (snd p)) (concat (map (merge_table new prev) ?ks)))"
    by (rule sorted_concat_names) (simp add: merge_table_names)
  from m strict set_ks names show ?thesis by (intro conjI)
qed

theorem merge_follows_table_witness:
  "merge [(''o1'', Some \<lparr>u_data = [0x41], type = INLINE, role = SYNAPSE\<rparr>),
          (''o2'', Some \<lparr>u_data = replicate 32 2, type = SHA256, role = SYNAPSE\<rparr>),
          (''o3'', Some \<lparr>u_data = [0x5B, 0x5D], type = INLINE, role = NEURON\<rparr>)]
         [(''o1'', Some \<lparr>u_data = [0x41], type = INLINE, role = SYNAPSE\<rparr>),
          (''o2'', Some \<lparr>u_data = replicate 32 1, type = SHA256, role = SYNAPSE\<rparr>),
          (''o3'', None)]
     = Inr [(update, ''o2'', Some \<lparr>u_data = replicate 32 2, type = SHA256, role = SYNAPSE\<rparr>)]"
  using merge_follows_table[of
      "[(''o1'', Some \<lparr>u_data = [0x41], type = INLINE, role = SYNAPSE\<rparr>),
        (''o2'', Some \<lparr>u_data = replicate 32 2, type = SHA256, role = SYNAPSE\<rparr>),
        (''o3'', Some \<lparr>u_data = [0x5B, 0x5D], type = INLINE, role = NEURON\<rparr>)]"
      "[(''o1'', Some \<lparr>u_data = [0x41], type = INLINE, role = SYNAPSE\<rparr>),
        (''o2'', Some \<lparr>u_data = replicate 32 1, type = SHA256, role = SYNAPSE\<rparr>),
        (''o3'', None)]"]
  by (simp add: merge_table_def neuron_like_def)

section \<open>The self-address of a rack\<close>

lemma to_json_total:
  "to_json store = Inr (keys store, map (\<lambda>k. the (map_of store k)) (keys store))"
  by (simp add: to_json_def get_cakes_def keys_def contains_def)

lemma ensure_it_or_none_cake_json:
  "(\<And>c. v = Some c \<Longrightarrow> check_key_length c = Inr c) \<Longrightarrow>
   ensure_it_or_none (cake_json v) = Inr v"
  by (cases v) (simp_all add: ensure_it_or_none_def cake_json_def Cake_init_def Cake_of_string_str)

lemma parse_pairs_own:
  "length ks = length vs \<Longrightarrow> \<forall>c. Some c \<in> set vs \<longrightarrow> check_key_length c = Inr c \<Longrightarrow>
   parse_pairs (map JString ks) (map cake_json vs) = Inr (zip ks vs)"
  by (induction ks vs rule: list_induct2)
    (simp_all add: ensure_it_or_none_cake_json name_key_def)

lemma update_fresh: "k \<notin> fst ` set al \<Longrightarrow> AList.update k v al = al @ [(k, v)]"
  by (induction al) auto

lemma updates_fresh:
  "distinct ks \<Longrightarrow> length ks = length vs \<Longrightarrow> set ks \<inter> fst ` set al = {} \<Longrightarrow>
   AList.updates ks vs al = al @ zip ks vs"
proof (induction ks arbitrary: vs al)
  case Nil
  then show ?case by simp
next
  case (Cons k ks)
  then obtain v vs' where vs: "vs = v # vs'" by (cases vs) auto
  from Cons.prems have fresh: "k \<notin> fst ` set al" by auto
  from Cons.prems vs have "distinct ks" "length ks = length vs'"
    "set ks \<inter> fst ` set (al @ [(k, v)]) = {}" by auto
  from Cons.IH[OF this] fresh vs show ?case by (simp add: update_fresh)
qed

lemma lookup_zip:
  "distinct ks \<Longrightarrow> length ks = length vs \<Longrightarrow>
   map (\<lambda>k. the (map_of (zip ks vs) k)) ks = vs"
proof (induction ks vs rule: list_induct2')
  case (4 k ks v vs)
  then have ih: "map (\<lambda>k. the (map_of (zip ks vs) k)) ks = vs" by simp
  have "map (\<lambda>x. the (map_of (zip (k # ks) (v # vs)) x)) ks
      = map (\<lambda>x. the (map_of (zip ks vs) x)) ks"
    using "4.prems"(1) by (intro map_cong) auto
  with ih show ?case by simp
qed simp_all

lemma parse_own_text:
  assumes d: "distinct (map fst store)"
    and wf: "\<forall>c. Some c \<in> snd ` set store \<longrightarrow> check_key_length c = Inr c"
    and rt: "loads content = Inr (rack_json (keys store, map (\<lambda>k. the (map_of store k)) (keys store)))"
  shows "parse loads [] content = Inr (zip (keys store) (map (\<lambda>k. the (map_of store k)) (keys store)))"
proof -
  let ?ks = "keys store"
  let ?vs = "map (\<lambda>k. the (map_of store k)) ?ks"
  have dk: "distinct ?ks" using d by (simp add: keys_def)
  have "\<forall>c. Some c \<in> set ?vs \<longrightarrow> check_key_length c = Inr c"
  proof (intro allI impI)
    fix c assume "Some c \<in> set ?vs"
    then obtain k where k: "k \<in> set ?ks" "the (map_of store k) = Some c" by auto
    from k(1) have "k \<in> fst ` set store" by (simp add: keys_def)
    then obtain v where "map_of store k = Some v"
      by (metis map_of_eq_None_iff not_Some_eq)
    with k(2) have "map_of store k = Some (Some c)" by simp
    then have "(k, Some c) \<in> set store" by (rule map_of_SomeD)
    then have "Some c \<in> snd ` set store" by force
    with wf show "check_key_length c = Inr c" by blast
  qed
  then have pp: "parse_pairs (map JString ?ks) (map cake_json ?vs) = Inr (zip ?ks ?vs)"
    by (intro parse_pairs_own) simp_all
  have up: "AList.updates ?ks ?vs [] = [] @ zip ?ks ?vs"
    by (rule updates_fresh) (use dk in simp_all)
  show ?thesis
    by (simp add: parse_def json_iter_def rt rack_json_def pp up
        del: updates_key_simp map_map)
qed

lemma to_json_rebuilt:
  assumes "distinct (map fst store)"
  shows "to_json (zip (keys store) (map (\<lambda>k. the (map_of store k)) (keys store))) = to_json store"
proof -
  let ?ks = "keys store"
  let ?vs = "map (\<lambda>k. the (map_of store k)) ?ks"
  have dk: "distinct ?ks" using assms by (simp add: keys_def)
  have sk: "sorted ?ks" by (simp add: keys_def)
  have "map fst (zip ?ks ?vs) = ?ks" by simp
  then have k: "keys (zip ?ks ?vs) = ?ks"
    using sk by (simp add: keys_def sorted_sort_id del: map_fst_zip)
  have v: "map (\<lambda>k. the (map_of (zip ?ks ?vs) k)) ?ks = ?vs"
    by (rule lookup_zip) (use dk in simp_all)
  show ?thesis by (simp only: to_json_total k v)
qed

text \<open>
  C7 (rack self-address). For every rack (a dictionary of well-formed Cakes or nulls), parsing
  its canonical serialization \<open>str(rack)\<close> into a fresh rack yields a rack with the same
  \<open>cake()\<close>. That \<open>json.loads\<close> gives back what \<open>json.dumps\<close> was given, for the document of
  this rack, is the hypothesis on the two library functions.
\<close>

theorem rack_cake_stable:
  assumes "distinct (map fst store)"
    and "\<forall>c. Some c \<in> snd ` set store \<longrightarrow> check_key_length c = Inr c"
    and "to_json store = Inr tj"
    and "loads (dumps (rack_json tj)) = Inr (rack_json tj)"
  shows "\<exists>content store'. rack_str dumps store = Inr content \<and> parse loads [] content = Inr store'
     \<and> rack_cake sha256 dumps store' = rack_cake sha256 dumps store
     \<and> (length (sha256 (ensure_bytes content)) = 32 \<longrightarrow>
          (\<exists>c. rack_cake sha256 dumps store = Inr c \<and> role c = NEURON))"
proof -
  let ?ks = "keys store"
  let ?vs = "map (\<lambda>k. the (map_of store k)) ?ks"
  from assms(3) have tj: "tj = (?ks, ?vs)" by (simp add: to_json_total)
  have str: "rack_str dumps store = Inr (dumps (rack_json tj))"
    by (simp add: rack_str_def assms(3))
  have "loads (dumps (rack_json tj)) = Inr (rack_json (?ks, ?vs))"
    using assms(4) by (simp only: tj)
  with assms(1,2) have p: "parse loads [] (dumps (rack_json tj)) = Inr (zip ?ks ?vs)"
    by (rule parse_own_text)
  have "rack_str dumps (zip ?ks ?vs) = rack_str dumps store"
    by (simp only: rack_str_def to_json_rebuilt[OF assms(1)])
  then have "rack_cake sha256 dumps (zip ?ks ?vs) = rack_cake sha256 dumps store"
    by (simp only: rack_cake_def)
  moreover have "length (sha256 (ensure_bytes (dumps (rack_json tj)))) = 32 \<longrightarrow>
      (\<exists>c. rack_cake sha256 dumps store = Inr c \<and> role c = NEURON)"
    by (simp add: rack_cake_def str from_digest_and_inline_data_def Cake_of_parts_def
        check_key_length_def has_data_def)
  ultimately show ?thesis using str p by blast
qed

theorem rack_cake_stable_witness:
  "distinct (map fst [(''b'', Some \<lparr>u_data = [0x61], type = INLINE, role = SYNAPSE\<rparr>), (''a'', None)])
   \<and> check_key_length \<lparr>u_data = [0x61], type = INLINE, role = SYNAPSE\<rparr>
       = Inr \<lparr>u_data = [0x61], type = INLINE, role = SYNAPSE\<rparr>
   \<and> to_json [(''b'', Some \<lparr>u_data = [0x61], type = INLINE, role = SYNAPSE\<rparr>), (''a'', None)]
       = Inr ([''a'', ''b''], [None, Some \<lparr>u_data = [0x61], type = INLINE, role = SYNAPSE\<rparr>])
   \<and> (\<exists>content store'.
         rack_str (\<lambda>j. ''[[\"a\", \"b\"], [null, \"01z\"]]'')
           [(''b'', Some \<lparr>u_data = [0x61], type = INLINE, role = SYNAPSE\<rparr>), (''a'', None)]
           = Inr content
       \<and> parse (\<lambda>s. Inr (rack_json ([''a'', ''b''],
                   [None, Some \<lparr>u_data = [0x61], type = INLINE, role = SYNAPSE\<rparr>])))
           [] content = Inr store'
       \<and> rack_cake (\<lambda>b. replicate 32 0) (\<lambda>j. ''[[\"a\", \"b\"], [null, \"01z\"]]'') store'
           = rack_cake (\<lambda>b. replicate 32 0) (\<lambda>j. ''[[\"a\", \"b\"], [null, \"01z\"]]'')
               [(''b'', Some \<lparr>u_data = [0x61], type = INLINE, role = SYNAPSE\<rparr>), (''a'', None)]
       \<and> (\<exists>c. rack_cake (\<lambda>b. replicate 32 0) (\<lambda>j. ''[[\"a\", \"b\"], [null, \"01z\"]]'')
               [(''b'', Some \<lparr>u_data = [0x61], type = INLINE, role = SYNAPSE\<rparr>), (''a'', None)]
             = Inr c \<and> role c = NEURON))"
proof -
  let ?c = "\<lparr>u_data = [0x61], type = INLINE, role = SYNAPSE\<rparr>"
  let ?store = "[(''b'', Some ?c), (''a'', None)]"
  have d: "distinct (map fst ?store)" by simp
  have wf: "\<forall>c. Some c \<in> snd ` set ?store \<longrightarrow> check_key_length c = Inr c"
    by (simp add: check_key_length_def has_data_def)
  have tj: "to_json ?store = Inr ([''a'', ''b''], [None, Some ?c])"
    by (simp add: to_json_total keys_def)
  have rt: "(\<lambda>s. Inr (rack_json ([''a'', ''b''], [None, Some ?c])))
      ((\<lambda>j. ''[[\"a\", \"b\"], [null, \"01z\"]]'') (rack_json ([''a'', ''b''], [None, Some ?c])))
      = Inr (rack_json ([''a'', ''b''], [None, Some ?c]))" by simp
  from rack_cake_stable[OF d wf tj, of "\<lambda>s. Inr (rack_json ([''a'', ''b''], [None, Some ?c]))"
      "\<lambda>j. ''[[\"a\", \"b\"], [null, \"01z\"]]''" "\<lambda>b. replicate 32 0", OF rt] d tj
  show ?thesis by (simp add: check_key_length_def has_data_def)
qed

section \<open>The doctests of the source\<close>

text \<open>
  The examples that the docstrings of the source give for \<open>Cake.from_bytes\<close>,
  \<open>shard_name_int\<close>, \<open>is_it_shard\<close> and \<open>SaltedSha\<close>, replayed on the model. They fix the
  alphabets of the codec and the byte order of its numbers.
\<close>

lemma doctest_short_k:
  "map_sum id Cake_str (from_bytes sha256 [0x54, 0x68, 0x65, 0x20, 0x71, 0x75, 0x69, 0x63, 0x6B, 0x20, 0x62, 0x72, 0x6F, 0x77, 0x6E, 0x20, 0x66, 0x6F, 0x78, 0x20, 0x6A, 0x75, 0x6D, 0x70, 0x73, 0x20, 0x6F, 0x76, 0x65, 0x72] SYNAPSE)
     = Inr ''01aMUQDApalaaYbXFjBVMMvyCAMfSPcTojI0745igi''"
  by (simp add: from_bytes_def from_stream_cases Cake_str_def B62_encode_def encode_def
      pack_in_bytes_def header_def from_digits_def encode_digits_def alphabet62_def
      to_digits.simps)

lemma doctest_shard_name: "shard_name_int 0 = ''0''" "shard_name_int 1 = ''1''"
  "shard_name_int 8000 = ''668''"
  by (simp_all add: shard_name_int_def B36_encode_int_def encode_int_def encode_digits_def
      alphabet36_def to_digits.simps)

lemma doctest_is_it_shard:
  "is_it_shard decode_shard ''668'' 8192 = Inr True"
  "is_it_shard decode_shard ''6bk'' 8192 = Inr False"
  "is_it_shard decode_shard ''0'' 8192 = Inr True"
  "is_it_shard decode_shard ''5BK'' 8192 = Inr True"
  "is_it_shard decode_shard ''6BK'' 8192 = Inr False"
  "is_it_shard decode_shard '''' 8192 = Inr False"
  "is_it_shard decode_shard ''.5k'' 8192 = Inr False"
  "is_it_shard decode_shard ''abcd'' 8192 = Inr False"
  by (simp_all add: is_it_shard_def decode_shard_def B36_decode_int_def decode_int_def
      from_digits_def alphabet36_def lower_def lower_char_def)

lemma doctest_ssha:
  "SaltedSha_init b64decode_canonical ''{SSHA}5wRHUQxypw7C4AVd4yZRW/8pXy2Gwvh/''
     = Inr \<lparr>ssha_digest = [0xE7, 0x04, 0x47, 0x51, 0x0C, 0x72, 0xA7, 0x0E, 0xC2, 0xE0, 0x05, 0x5D,
                             0xE3, 0x26, 0x51, 0x5B, 0xFF, 0x29, 0x5F, 0x2D],
              salt = [0x86, 0xC2, 0xF8, 0x7F]\<rparr>"
  by (simp add: SaltedSha_init_def SSHA_MARK_def b64_alphabet_def b64_group_def)

end
